theory Spec2Isabelle
  imports Main
begin

section \<open>The link database of obt/linkbase.c\<close>

text \<open>
  A shallow embedding of \<^verbatim>\<open>src/obt/linkbase.c\<close>. The C code works on heap objects
  through pointers: list nodes (\<^verbatim>\<open>GSList\<close>), index entries (\<^verbatim>\<open>ObtLinkBaseEntry\<close>),
  parsed records (\<^verbatim>\<open>ObtLink\<close>) and the database itself (\<^verbatim>\<open>ObtLinkBase\<close>). The model
  keeps them in one store of tagged objects, so that what a pointer points to is what
  the code put there, and every read the C language leaves undefined (an object read
  at the wrong type, a freed object, a null or never assigned pointer) is a fault
  value of the result.
\<close>

subsection \<open>Locale specifier (obt\_linkbase\_new, lines 308-348)\<close>

text \<open>
  A C string read at index \<open>i\<close>: the terminating NUL stands at its length. The loops
  below never read past the first NUL.
\<close>

definition char_at :: "string \<Rightarrow> nat \<Rightarrow> char" where
  "char_at s i = (if i < length s then s ! i else CHR 0x00)"

text \<open>
  The negation of the test
  \<^verbatim>\<open>((guchar)c < 'A' || (guchar)c > 'Z') && ((guchar)c < 'a' || (guchar)c > 'z')\<close>.
\<close>

definition is_letter :: "char \<Rightarrow> bool" where
  "is_letter c =
     ((65 \<le> (of_char c :: nat) \<and> (of_char c :: nat) \<le> 90) \<or>
      (97 \<le> (of_char c :: nat) \<and> (of_char c :: nat) \<le> 122))"

text \<open>
  Lines 310-319. The result is the value of \<^verbatim>\<open>self->language\<close> (\<open>None\<close> is the
  NULL that \<^verbatim>\<open>g_slice_new0\<close> left there) and the final \<open>i\<close>.
\<close>

function language_loop :: "string \<Rightarrow> nat \<Rightarrow> string option \<times> nat" where
  "language_loop locale i =
     (if char_at locale i = CHR 0x00 \<or> char_at locale i = CHR ''_'' \<or>
         char_at locale i = CHR ''.'' \<or> char_at locale i = CHR ''@''
      then (Some (take i locale), i)
      else if \<not> is_letter (char_at locale i) then (None, i)
      else language_loop locale (i + 1))"
  by pat_completeness auto
termination
  by (relation "measure (\<lambda>(locale, i). length locale - i)")
     (auto simp: char_at_def split: if_splits)

text \<open>Lines 322-329, on the string after \<^verbatim>\<open>locale += i+1\<close>.\<close>

function country_loop :: "string \<Rightarrow> nat \<Rightarrow> string option \<times> nat" where
  "country_loop locale i =
     (if char_at locale i = CHR 0x00 \<or> char_at locale i = CHR ''.'' \<or>
         char_at locale i = CHR ''@''
      then (Some (take i locale), i)
      else if \<not> is_letter (char_at locale i) then (None, i)
      else country_loop locale (i + 1))"
  by pat_completeness auto
termination
  by (relation "measure (\<lambda>(locale, i). length locale - i)")
     (auto simp: char_at_def split: if_splits)

text \<open>
  Lines 332-337: the loop meant to skip the character set. It starts at the current
  \<open>i\<close>, where the caller has just found \<^verbatim>\<open>'.'\<close>, and assigns nothing.
\<close>

function charset_loop :: "string \<Rightarrow> nat \<Rightarrow> nat" where
  "charset_loop locale i =
     (if char_at locale i = CHR 0x00 \<or> char_at locale i = CHR ''@'' then i
      else if \<not> is_letter (char_at locale i) then i
      else charset_loop locale (i + 1))"
  by pat_completeness auto
termination
  by (relation "measure (\<lambda>(locale, i). length locale - i)")
     (auto simp: char_at_def split: if_splits)

text \<open>Lines 340-347, on the string after the second \<^verbatim>\<open>locale += i+1\<close>.\<close>

function modifier_loop :: "string \<Rightarrow> nat \<Rightarrow> string option \<times> nat" where
  "modifier_loop locale i =
     (if char_at locale i = CHR 0x00 then (Some (take i locale), i)
      else if \<not> is_letter (char_at locale i) then (None, i)
      else modifier_loop locale (i + 1))"
  by pat_completeness auto
termination
  by (relation "measure (\<lambda>(locale, i). length locale - i)")
     (auto simp: char_at_def split: if_splits)

text \<open>
  Lines 308-348 as a whole: the triple (language, country, modifier) stored in the new
  database. \<^verbatim>\<open>g_strndup\<close> of an empty prefix is the empty string, not NULL.
\<close>

definition parse_locale :: "string \<Rightarrow> string option \<times> string option \<times> string option" where
  "parse_locale locale0 =
     (let (lang, i0) = language_loop locale0 0;
          (locale1, ctry, i1) =
             (if lang \<noteq> None \<and> char_at locale0 i0 = CHR ''_''
              then (let l = drop (i0 + 1) locale0; (c, j) = country_loop l 0 in (l, c, j))
              else (locale0, None, i0));
          i2 = (if ctry \<noteq> None \<and> char_at locale1 i1 = CHR ''.''
                then charset_loop locale1 i1 else i1);
          modf =
             (if ctry \<noteq> None \<and> char_at locale1 i2 = CHR ''@''
              then fst (modifier_loop (drop (i2 + 1) locale1) 0)
              else None)
      in (lang, ctry, modf))"

subsection \<open>Objects and the store\<close>

type_synonym addr = nat

type_synonym GQuark = nat

text \<open>
  Modelled from the spec: \<^verbatim>\<open>obt/link.h\<close> and \<^verbatim>\<open>obt/link.c\<close> are not among the
  sources. The source names \<^verbatim>\<open>OBT_LINK_TYPE_APPLICATION\<close>; the spec gives the kinds
  Application, Link and Directory, and the attributes of a record this module reads:
  its source file, its kind and its category tags.
\<close>

datatype ObtLinkType =
  OBT_LINK_TYPE_APPLICATION | OBT_LINK_TYPE_LINK | OBT_LINK_TYPE_DIRECTORY

record ObtLink =
  source_file :: string
  link_type :: ObtLinkType
  app_categories :: "GQuark list"

datatype ObtWatchNotifyType =
  OBT_WATCH_ADDED | OBT_WATCH_REMOVED | OBT_WATCH_MODIFIED | OBT_WATCH_SELF_REMOVED

datatype ObtLinkBaseUpdateType = OBT_LINKBASE_ADDED | OBT_LINKBASE_REMOVED

text \<open>
  \<^verbatim>\<open>struct _ObtLinkBase\<close>, lines 44-73. A hash table is the list of its key and value
  pairs, each key once. \<open>base\<close> maps an id to the head of a \<^verbatim>\<open>GSList\<close> in the
  store; \<open>path_to_priority\<close> maps a watched path to the integer its value points to;
  \<open>categories\<close> maps a tag to the members of its \<^verbatim>\<open>ObtLinkBaseCategory\<close> (a list
  that only that object points to, so it is kept by value). \<open>paths\<close> is the
  directory list \<^verbatim>\<open>obt_paths_data_dirs\<close> returns, \<open>watch\<close> the paths watched so far.
  A function pointer is a number, \<open>None\<close> is NULL. A \<^verbatim>\<open>gint\<close> is an \<open>int\<close>
  that \<open>gint\<close> brings back into the 32 bits after each step.
\<close>

text \<open>
  A \<^verbatim>\<open>gint\<close> has 32 bits: what the compiled code leaves after \<^verbatim>\<open>++\<close> and
  \<^verbatim>\<open>--\<close> is the result in two's complement.
\<close>

definition gint :: "int \<Rightarrow> int" where
  "gint x = (x + 2147483648) mod 4294967296 - 2147483648"

record ObtLinkBase =
  ref :: int
  environments :: nat
  language :: "string option"
  country :: "string option"
  modifier :: "string option"
  paths :: "string list"
  watch :: "string list"
  base :: "(string \<times> addr) list"
  path_to_priority :: "(string \<times> int) list"
  categories :: "(GQuark \<times> addr list) list"
  update_func :: "nat option"
  update_data :: "nat option"

text \<open>
  What an address holds: a list node (data, next), an \<^verbatim>\<open>ObtLinkBaseEntry\<close>
  (priority, link), a record with its reference count, or the database.
\<close>

datatype obj =
  GSList addr "addr option"
| ObtLinkBaseEntry int addr
| ObtLinkObj nat ObtLink
| ObtLinkBaseObj ObtLinkBase

text \<open>
  The faults: an object read at another type than it was written with, a read through
  a pointer whose object was freed, through NULL, through a pointer variable that was
  never assigned, and a list walk that does not end.
\<close>

datatype fault = WrongType | Dangling | NullPointer | Unassigned | Unbounded

text \<open>
  The store, the next fresh address (an address is never handed out twice), and the
  invocations of the change callback so far: the function called, the kind, the
  record pointer passed and the user data.
\<close>

record memory =
  heap :: "addr \<Rightarrow> obj option"
  brk :: addr
  calls :: "(nat \<times> ObtLinkBaseUpdateType \<times> addr \<times> nat option) list"

definition alloc :: "memory \<Rightarrow> obj \<Rightarrow> addr \<times> memory" where
  "alloc m ob = (brk m, m\<lparr>heap := (heap m)(brk m \<mapsto> ob), brk := Suc (brk m)\<rparr>)"

definition read_node :: "(addr \<Rightarrow> obj option) \<Rightarrow> addr \<Rightarrow> fault + (addr \<times> addr option)" where
  "read_node h a =
     (case h a of
        None \<Rightarrow> Inl Dangling
      | Some (GSList d n) \<Rightarrow> Inr (d, n)
      | Some _ \<Rightarrow> Inl WrongType)"

definition read_entry :: "(addr \<Rightarrow> obj option) \<Rightarrow> addr \<Rightarrow> fault + (int \<times> addr)" where
  "read_entry h a =
     (case h a of
        None \<Rightarrow> Inl Dangling
      | Some (ObtLinkBaseEntry p l) \<Rightarrow> Inr (p, l)
      | Some _ \<Rightarrow> Inl WrongType)"

text \<open>
  What \<^verbatim>\<open>obt_link_source_file\<close>, \<^verbatim>\<open>obt_link_type\<close> and \<^verbatim>\<open>obt_link_app_categories\<close>
  read: they are defined on pointers to records only.
\<close>

definition read_link :: "(addr \<Rightarrow> obj option) \<Rightarrow> addr \<Rightarrow> fault + ObtLink" where
  "read_link h a =
     (case h a of
        None \<Rightarrow> Inl Dangling
      | Some (ObtLinkObj r k) \<Rightarrow> Inr k
      | Some _ \<Rightarrow> Inl WrongType)"

definition read_self :: "(addr \<Rightarrow> obj option) \<Rightarrow> addr \<Rightarrow> fault + ObtLinkBase" where
  "read_self h a =
     (case h a of
        None \<Rightarrow> Inl Dangling
      | Some (ObtLinkBaseObj lb) \<Rightarrow> Inr lb
      | Some _ \<Rightarrow> Inl WrongType)"

definition store_self :: "memory \<Rightarrow> addr \<Rightarrow> ObtLinkBase \<Rightarrow> memory" where
  "store_self m a lb = m\<lparr>heap := (heap m)(a \<mapsto> ObtLinkBaseObj lb)\<rparr>"

subsection \<open>GLib: strings, hash tables, singly linked lists\<close>

definition g_str_has_suffix :: "string \<Rightarrow> string \<Rightarrow> bool" where
  "g_str_has_suffix s suffix =
     (length suffix \<le> length s \<and> drop (length s - length suffix) s = suffix)"

text \<open>
  \<^verbatim>\<open>g_build_filename\<close> of two elements, as GLib builds a path with the separator
  \<^verbatim>\<open>/\<close>. An empty element is left out. Of the first element the leading separators
  are kept and the trailing ones dropped; of the second the leading ones are dropped
  and the trailing ones kept; one separator comes between the two, unless one of them
  is made of separators only. An element made of separators only adds nothing in
  between: as the first it is kept as the start of the result, as the second as its
  end.
\<close>

definition is_dir_separator :: "char \<Rightarrow> bool" where
  "is_dir_separator ch = (ch = CHR ''/'')"

definition strip_separators :: "string \<Rightarrow> string" where
  "strip_separators s = rev (dropWhile is_dir_separator (rev (dropWhile is_dir_separator s)))"

definition g_build_filename :: "string \<Rightarrow> string \<Rightarrow> string" where
  "g_build_filename a b =
     (if a = [] then b
      else if b = [] then a
      else takeWhile is_dir_separator a @ strip_separators a @
           (if strip_separators b = [] then b
            else (if strip_separators a = [] then [] else ''/'') @
                 dropWhile is_dir_separator b))"

definition g_hash_table_lookup :: "('k \<times> 'v) list \<Rightarrow> 'k \<Rightarrow> 'v option" where
  "g_hash_table_lookup t k = map_of t k"

fun g_hash_table_insert :: "('k \<times> 'v) list \<Rightarrow> 'k \<Rightarrow> 'v \<Rightarrow> ('k \<times> 'v) list" where
  "g_hash_table_insert [] k v = [(k, v)]"
| "g_hash_table_insert ((k', v') # t) k v =
     (if k' = k then (k', v) # t else (k', v') # g_hash_table_insert t k v)"

definition g_hash_table_remove :: "('k \<times> 'v) list \<Rightarrow> 'k \<Rightarrow> ('k \<times> 'v) list" where
  "g_hash_table_remove t k = filter (\<lambda>kv. fst kv \<noteq> k) t"

text \<open>
  Every walk along a list in the store carries a bound, the number of addresses handed
  out so far: a list of distinct nodes is not longer, so a walk that uses the bound up
  is on a cycle, where the C loop does not end.

  \<^verbatim>\<open>_g_slist_remove_link\<close>: unlinks the node \<open>l\<close> when the walk meets it.
\<close>

fun g_slist_remove_link ::
  "nat \<Rightarrow> (addr \<Rightarrow> obj option) \<Rightarrow> addr option \<Rightarrow> addr \<Rightarrow>
   fault + ((addr \<Rightarrow> obj option) \<times> addr option)" where
  "g_slist_remove_link n h None l = Inr (h, None)"
| "g_slist_remove_link 0 h (Some a) l = Inl Unbounded"
| "g_slist_remove_link (Suc n) h (Some a) l =
     (case read_node h a of
        Inl e \<Rightarrow> Inl e
      | Inr (d, nx) \<Rightarrow>
          if a = l then Inr (h(a \<mapsto> GSList d None), nx)
          else (case g_slist_remove_link n h nx l of
                  Inl e \<Rightarrow> Inl e
                | Inr (h', nx') \<Rightarrow> Inr (h'(a \<mapsto> GSList d nx'), Some a)))"

text \<open>\<^verbatim>\<open>g_slist_delete_link\<close>: unlinks the node and frees it.\<close>

definition g_slist_delete_link ::
  "nat \<Rightarrow> (addr \<Rightarrow> obj option) \<Rightarrow> addr option \<Rightarrow> addr \<Rightarrow>
   fault + ((addr \<Rightarrow> obj option) \<times> addr option)" where
  "g_slist_delete_link n h list l =
     (case g_slist_remove_link n h list l of
        Inl e \<Rightarrow> Inl e
      | Inr (h', list') \<Rightarrow> Inr (h'(l := None), list'))"

text \<open>
  The walk of \<^verbatim>\<open>g_slist_insert_before\<close>:
  \<^verbatim>\<open>for (node = slist; node; last = node, node = last->next) if (node == sibling) break;\<close>
  The result is the final \<^verbatim>\<open>last\<close>.
\<close>

fun insert_before_walk ::
  "nat \<Rightarrow> (addr \<Rightarrow> obj option) \<Rightarrow> addr option \<Rightarrow> addr option \<Rightarrow> addr option \<Rightarrow>
   fault + addr option" where
  "insert_before_walk n h None prev sibling = Inr prev"
| "insert_before_walk 0 h (Some a) prev sibling = Inl Unbounded"
| "insert_before_walk (Suc n) h (Some a) prev sibling =
     (if Some a = sibling then Inr prev
      else (case read_node h a of
              Inl e \<Rightarrow> Inl e
            | Inr (d, nx) \<Rightarrow> insert_before_walk n h nx (Some a) sibling))"

text \<open>
  \<^verbatim>\<open>g_slist_insert_before\<close>: a new node before \<open>sibling\<close>; at the end of the list
  when the walk does not meet \<open>sibling\<close> (NULL, or a node that is not in the list).
\<close>

definition g_slist_insert_before ::
  "memory \<Rightarrow> addr option \<Rightarrow> addr option \<Rightarrow> addr \<Rightarrow> fault + (memory \<times> addr)" where
  "g_slist_insert_before m slist sibling data =
     (case slist of
        None \<Rightarrow> (let (node, m1) = alloc m (GSList data None) in Inr (m1, node))
      | Some first \<Rightarrow>
          (case insert_before_walk (brk m) (heap m) slist None sibling of
             Inl e \<Rightarrow> Inl e
           | Inr None \<Rightarrow>
               (let (node, m1) = alloc m (GSList data slist) in Inr (m1, node))
           | Inr (Some prev) \<Rightarrow>
               (case read_node (heap m) prev of
                  Inl e \<Rightarrow> Inl e
                | Inr (d, nx) \<Rightarrow>
                    (let (node, m1) = alloc m (GSList data nx)
                     in Inr (m1\<lparr>heap := (heap m1)(prev \<mapsto> GSList d (Some node))\<rparr>,
                             first)))))"

text \<open>\<^verbatim>\<open>g_slist_free\<close>: frees every node of the list.\<close>

fun g_slist_free ::
  "nat \<Rightarrow> (addr \<Rightarrow> obj option) \<Rightarrow> addr option \<Rightarrow> fault + (addr \<Rightarrow> obj option)" where
  "g_slist_free n h None = Inr h"
| "g_slist_free 0 h (Some a) = Inl Unbounded"
| "g_slist_free (Suc n) h (Some a) =
     (case read_node h a of
        Inl e \<Rightarrow> Inl e
      | Inr (d, nx) \<Rightarrow> g_slist_free n (h(a := None)) nx)"

subsection \<open>Collaborators\<close>

text \<open>
  Modelled from the spec: \<^verbatim>\<open>obt/link.c\<close> and \<^verbatim>\<open>obt/watch.c\<close> are not among the
  sources. The functions of theirs that this module calls are parameters:
  \<^verbatim>\<open>obt_link_id_from_ddfile\<close>; \<^verbatim>\<open>obt_link_from_ddfile\<close> (the record parsed from a
  file, for the paths and the locale; \<open>None\<close> when parsing fails; what a file holds
  changes with time, so each event may come with its own parser);
  \<^verbatim>\<open>obt_link_display\<close>; and the files a directory holds when a watch is put on it,
  which \<^verbatim>\<open>obt_watch_add\<close> reports at once as added (the comment of lines 361-363).
\<close>

record collab =
  obt_link_id_from_ddfile :: "string \<Rightarrow> string"
  obt_link_from_ddfile ::
    "string \<Rightarrow> string list \<Rightarrow> string option \<Rightarrow> string option \<Rightarrow> string option \<Rightarrow>
     ObtLink option"
  obt_link_display :: "ObtLink \<Rightarrow> nat \<Rightarrow> bool"
  dir_contents :: "string \<Rightarrow> string list"

text \<open>
  Modelled from the spec: \<^verbatim>\<open>obt_link_unref\<close> gives up one reference; the record is
  destroyed when the last owner releases it.
\<close>

definition obt_link_unref ::
  "(addr \<Rightarrow> obj option) \<Rightarrow> addr \<Rightarrow> fault + (addr \<Rightarrow> obj option)" where
  "obt_link_unref h l =
     (case h l of
        None \<Rightarrow> Inl Dangling
      | Some (ObtLinkObj r k) \<Rightarrow>
          Inr (if r \<le> 1 then h(l := None) else h(l \<mapsto> ObtLinkObj (r - 1) k))
      | Some _ \<Rightarrow> Inl WrongType)"

text \<open>A filesystem notification, as the watch hands it to \<^verbatim>\<open>update\<close>.\<close>

record event =
  base_path :: string
  sub_path :: string
  full_path :: string
  notify_type :: ObtWatchNotifyType

subsection \<open>Entries and their lists (lines 75-112)\<close>

text \<open>\<^verbatim>\<open>base_entry_free\<close>, lines 75-79.\<close>

definition base_entry_free ::
  "(addr \<Rightarrow> obj option) \<Rightarrow> addr \<Rightarrow> fault + (addr \<Rightarrow> obj option)" where
  "base_entry_free h e =
     (case read_entry h e of
        Inl f \<Rightarrow> Inl f
      | Inr (p, l) \<Rightarrow>
          (case obt_link_unref h l of
             Inl f \<Rightarrow> Inl f
           | Inr h' \<Rightarrow> Inr (h'(e := None))))"

text \<open>The loop of \<^verbatim>\<open>base_entry_list_free\<close>, lines 86-87.\<close>

fun base_entry_list_loop ::
  "nat \<Rightarrow> (addr \<Rightarrow> obj option) \<Rightarrow> addr option \<Rightarrow> fault + (addr \<Rightarrow> obj option)" where
  "base_entry_list_loop n h None = Inr h"
| "base_entry_list_loop 0 h (Some a) = Inl Unbounded"
| "base_entry_list_loop (Suc n) h (Some a) =
     (case read_node h a of
        Inl f \<Rightarrow> Inl f
      | Inr (d, nx) \<Rightarrow>
          (case base_entry_free h d of
             Inl f \<Rightarrow> Inl f
           | Inr h' \<Rightarrow> base_entry_list_loop n h' nx))"

text \<open>\<^verbatim>\<open>base_entry_list_free\<close>, lines 81-89.\<close>

definition base_entry_list_free ::
  "nat \<Rightarrow> (addr \<Rightarrow> obj option) \<Rightarrow> addr option \<Rightarrow> fault + (addr \<Rightarrow> obj option)" where
  "base_entry_list_free n h list =
     (case base_entry_list_loop n h list of
        Inl f \<Rightarrow> Inl f
      | Inr h' \<Rightarrow> g_slist_free n h' list)"

text \<open>
  \<^verbatim>\<open>find_base_entry_path\<close>, lines 91-100: the first node whose entry's record was
  read from \<open>path\<close>, or NULL.
\<close>

fun find_base_entry_path ::
  "nat \<Rightarrow> (addr \<Rightarrow> obj option) \<Rightarrow> addr option \<Rightarrow> string \<Rightarrow> fault + addr option" where
  "find_base_entry_path n h None path = Inr None"
| "find_base_entry_path 0 h (Some a) path = Inl Unbounded"
| "find_base_entry_path (Suc n) h (Some a) path =
     (case read_node h a of
        Inl f \<Rightarrow> Inl f
      | Inr (d, nx) \<Rightarrow>
          (case read_entry h d of
             Inl f \<Rightarrow> Inl f
           | Inr (p, l) \<Rightarrow>
               (case read_link h l of
                  Inl f \<Rightarrow> Inl f
                | Inr k \<Rightarrow>
                    if source_file k = path then Inr (Some a)
                    else find_base_entry_path n h nx path)))"

text \<open>
  \<^verbatim>\<open>find_base_entry_priority\<close>, lines 102-112: the first node whose entry has a
  priority number at least \<open>priority\<close>, or NULL.
\<close>

fun find_base_entry_priority ::
  "nat \<Rightarrow> (addr \<Rightarrow> obj option) \<Rightarrow> addr option \<Rightarrow> int \<Rightarrow> fault + addr option" where
  "find_base_entry_priority n h None priority = Inr None"
| "find_base_entry_priority 0 h (Some a) priority = Inl Unbounded"
| "find_base_entry_priority (Suc n) h (Some a) priority =
     (case read_node h a of
        Inl f \<Rightarrow> Inl f
      | Inr (d, nx) \<Rightarrow>
          (case read_entry h d of
             Inl f \<Rightarrow> Inl f
           | Inr (p, l) \<Rightarrow>
               if p \<ge> priority then Inr (Some a)
               else find_base_entry_priority n h nx priority))"

subsection \<open>The category index (lines 114-141)\<close>

text \<open>\<^verbatim>\<open>category_add\<close>, lines 114-126.\<close>

definition category_add :: "ObtLinkBase \<Rightarrow> GQuark \<Rightarrow> addr \<Rightarrow> ObtLinkBase" where
  "category_add lb cat link =
     (case g_hash_table_lookup (categories lb) cat of
        None \<Rightarrow> lb\<lparr>categories := g_hash_table_insert (categories lb) cat [link]\<rparr>
      | Some links \<Rightarrow>
          lb\<lparr>categories := g_hash_table_insert (categories lb) cat (link # links)\<rparr>)"

text \<open>
  \<^verbatim>\<open>category_remove\<close>, lines 128-141. The code reads \<^verbatim>\<open>lc->links\<close> without a test
  of \<^verbatim>\<open>lc\<close>, and its loop \<^verbatim>\<open>while (it->data != link)\<close> has no test for the end of
  the list.
\<close>

definition category_remove :: "ObtLinkBase \<Rightarrow> GQuark \<Rightarrow> addr \<Rightarrow> fault + ObtLinkBase" where
  "category_remove lb cat link =
     (case g_hash_table_lookup (categories lb) cat of
        None \<Rightarrow> Inl NullPointer
      | Some links \<Rightarrow>
          if link \<in> set links
          then (if remove1 link links = []
                then Inr (lb\<lparr>categories := g_hash_table_remove (categories lb) cat\<rparr>)
                else Inr (lb\<lparr>categories :=
                            g_hash_table_insert (categories lb) cat (remove1 link links)\<rparr>))
          else Inl NullPointer)"

text \<open>The loops \<^verbatim>\<open>for (i = 0; i < n; ++i)\<close> over the categories of a record.\<close>

fun category_add_all :: "ObtLinkBase \<Rightarrow> GQuark list \<Rightarrow> addr \<Rightarrow> ObtLinkBase" where
  "category_add_all lb [] link = lb"
| "category_add_all lb (cat # cats) link = category_add_all (category_add lb cat link) cats link"

fun category_remove_all :: "ObtLinkBase \<Rightarrow> GQuark list \<Rightarrow> addr \<Rightarrow> fault + ObtLinkBase" where
  "category_remove_all lb [] link = Inr lb"
| "category_remove_all lb (cat # cats) link =
     (case category_remove lb cat link of
        Inl f \<Rightarrow> Inl f
      | Inr lb' \<Rightarrow> category_remove_all lb' cats link)"

subsection \<open>The update handler (lines 149-287)\<close>

text \<open>
  \<^verbatim>\<open>if (self->update_func) self->update_func(self, kind, link, self->update_data);\<close>
  The model records the invocation; what the callback itself does is the caller's.
\<close>

definition notify :: "ObtLinkBase \<Rightarrow> ObtLinkBaseUpdateType \<Rightarrow> addr \<Rightarrow> memory \<Rightarrow> memory" where
  "notify lb kind link m =
     (case update_func lb of
        None \<Rightarrow> m
      | Some f \<Rightarrow> m\<lparr>calls := calls m @ [(f, kind, link, update_data lb)]\<rparr>)"

text \<open>
  A run of the handler that ends in a fault has made its calls of the callback up to
  there. The fault of the three functions below comes with them, the calls recorded
  when it occurs; each function is followed by its result with the fault alone.
\<close>

type_synonym call_log = "(nat \<times> ObtLinkBaseUpdateType \<times> addr \<times> nat option) list"

text \<open>
  Lines 177-193, and again, word for word, lines 213-229: what the handler does with
  the node \<open>it\<close> that \<^verbatim>\<open>find_base_entry_path\<close> found.

  \<^item> Line 177, \<^verbatim>\<open>ObtLink *link = it->data;\<close>. The data of a node of these lists is
    an \<^verbatim>\<open>ObtLinkBaseEntry\<close> (lines 95, 240 and 260-268); the code takes it for the
    record itself.
  \<^item> Lines 179-181: the callback, with that pointer.
  \<^item> Lines 183-190: \<^verbatim>\<open>obt_link_type\<close> and \<^verbatim>\<open>obt_link_app_categories\<close> read it as a
    record, and \<^verbatim>\<open>category_remove\<close> looks for it among the members.
  \<^item> Line 192: the node is unlinked and freed.
  \<^item> Line 193, \<^verbatim>\<open>base_entry_free(it->data);\<close>, reads the node again.

  The result is the memory, the database and the shortened list; a fault comes with
  the calls recorded by then, the one of lines 179-181 among them from there on.
\<close>

definition remove_found_traced ::
  "memory \<Rightarrow> ObtLinkBase \<Rightarrow> addr option \<Rightarrow> addr \<Rightarrow>
   (fault \<times> call_log) + (memory \<times> ObtLinkBase \<times> addr option)" where
  "remove_found_traced m lb list it =
     (case read_node (heap m) it of
        Inl f \<Rightarrow> Inl (f, calls m)
      | Inr (link, nx) \<Rightarrow>
          (let m1 = notify lb OBT_LINKBASE_REMOVED link m in
           case read_link (heap m1) link of
             Inl f \<Rightarrow> Inl (f, calls m1)
           | Inr k \<Rightarrow>
               (case (if link_type k = OBT_LINK_TYPE_APPLICATION
                      then category_remove_all lb (app_categories k) link
                      else Inr lb) of
                  Inl f \<Rightarrow> Inl (f, calls m1)
                | Inr lb1 \<Rightarrow>
                    (case g_slist_delete_link (brk m1) (heap m1) list it of
                       Inl f \<Rightarrow> Inl (f, calls m1)
                     | Inr (h2, list2) \<Rightarrow>
                         (case read_node h2 it of
                            Inl f \<Rightarrow> Inl (f, calls m1)
                          | Inr (d, nx2) \<Rightarrow>
                              (case base_entry_free h2 d of
                                 Inl f \<Rightarrow> Inl (f, calls m1)
                               | Inr h3 \<Rightarrow> Inr (m1\<lparr>heap := h3\<rparr>, lb1, list2)))))))"

text \<open>\<open>remove_found_traced\<close>, the calls dropped from its fault.\<close>

definition remove_found ::
  "memory \<Rightarrow> ObtLinkBase \<Rightarrow> addr option \<Rightarrow> addr \<Rightarrow>
   fault + (memory \<times> ObtLinkBase \<times> addr option)" where
  "remove_found m lb list it = map_sum fst id (remove_found_traced m lb list it)"

text \<open>
  Lines 249-284, the body of \<^verbatim>\<open>if (add)\<close>. \<open>priority\<close> is the local pointer of
  line 159 after the \<^verbatim>\<open>switch\<close>: \<open>None\<close> when no case assigned it, else the integer
  it points to. The new record starts with the one reference its creator holds.
\<close>

definition add_link_traced ::
  "collab \<Rightarrow> memory \<Rightarrow> ObtLinkBase \<Rightarrow> string \<Rightarrow> addr option \<Rightarrow> addr option \<Rightarrow>
   int option \<Rightarrow> string \<Rightarrow> (fault \<times> call_log) + (memory \<times> ObtLinkBase)" where
  "add_link_traced c m lb ident list it priority path =
     (case obt_link_from_ddfile c path (paths lb) (language lb) (country lb) (modifier lb) of
        None \<Rightarrow> Inr (m, lb)
      | Some k \<Rightarrow>
          (let (link, m1) = alloc m (ObtLinkObj 1 k) in
           if \<not> obt_link_display c k (environments lb)
           then (case obt_link_unref (heap m1) link of
                   Inl f \<Rightarrow> Inl (f, calls m1)
                 | Inr h \<Rightarrow> Inr (m1\<lparr>heap := h\<rparr>, lb))
           else (case priority of
                   None \<Rightarrow> Inl (Unassigned, calls m1)
                 | Some p \<Rightarrow>
                     (let (e, m2) = alloc m1 (ObtLinkBaseEntry p link);
                          m3 = notify lb OBT_LINKBASE_ADDED link m2
                      in case g_slist_insert_before m3 list it e of
                           Inl f \<Rightarrow> Inl (f, calls m3)
                         | Inr (m4, head) \<Rightarrow>
                             (let lb1 = lb\<lparr>base := g_hash_table_insert (base lb) ident head\<rparr>
                              in Inr (m4,
                                      if link_type k = OBT_LINK_TYPE_APPLICATION
                                      then category_add_all lb1 (app_categories k) link
                                      else lb1))))))"

text \<open>\<open>add_link_traced\<close>, the calls dropped from its fault.\<close>

definition add_link ::
  "collab \<Rightarrow> memory \<Rightarrow> ObtLinkBase \<Rightarrow> string \<Rightarrow> addr option \<Rightarrow> addr option \<Rightarrow>
   int option \<Rightarrow> string \<Rightarrow> fault + (memory \<times> ObtLinkBase)" where
  "add_link c m lb ident list it priority path =
     map_sum fst id (add_link_traced c m lb ident list it priority path)"

text \<open>
  \<^verbatim>\<open>update\<close>, lines 149-287. \<open>data\<close> is the handler's user data, the database.
  Where nothing was written the memory is returned as it came.

  \<^item> \<^verbatim>\<open>OBT_WATCH_REMOVED\<close>, lines 171-206: after the steps above the shortened list
    is stored under the id, or the id is removed when the list is empty.
  \<^item> \<^verbatim>\<open>OBT_WATCH_MODIFIED\<close>, lines 207-233: after the same steps only \<^verbatim>\<open>add\<close> is
    set. \<^verbatim>\<open>priority\<close> is not assigned in this case and \<open>it\<close> is the node that was
    freed; the table is not written before the body of \<^verbatim>\<open>if (add)\<close>. When no node
    was found, \<^verbatim>\<open>add\<close> stays FALSE.
  \<^item> \<^verbatim>\<open>OBT_WATCH_ADDED\<close>, lines 234-246: \<^verbatim>\<open>*priority\<close> is read on line 239, with no
    test of the pointer the lookup returned.
\<close>

definition update_traced ::
  "collab \<Rightarrow> memory \<Rightarrow> event \<Rightarrow> addr \<Rightarrow> (fault \<times> call_log) + memory" where
  "update_traced c m ev data =
     (if \<not> g_str_has_suffix (sub_path ev) ''.desktop'' then Inr m
      else
        (case read_self (heap m) data of
           Inl f \<Rightarrow> Inl (f, calls m)
         | Inr lb \<Rightarrow>
             (let ident = obt_link_id_from_ddfile c (sub_path ev);
                  list = g_hash_table_lookup (base lb) ident
              in case notify_type ev of
                   OBT_WATCH_SELF_REMOVED \<Rightarrow> Inr m
                 | OBT_WATCH_REMOVED \<Rightarrow>
                     (case find_base_entry_path (brk m) (heap m) list (full_path ev) of
                        Inl f \<Rightarrow> Inl (f, calls m)
                      | Inr None \<Rightarrow> Inr m
                      | Inr (Some it) \<Rightarrow>
                          (case remove_found_traced m lb list it of
                             Inl fl \<Rightarrow> Inl fl
                           | Inr (m1, lb1, list1) \<Rightarrow>
                               (case list1 of
                                  Some head \<Rightarrow>
                                    Inr (store_self m1 data
                                      (lb1\<lparr>base := g_hash_table_insert (base lb1) ident head\<rparr>))
                                | None \<Rightarrow>
                                    Inr (store_self m1 data
                                      (lb1\<lparr>base := g_hash_table_remove (base lb1) ident\<rparr>)))))
                 | OBT_WATCH_MODIFIED \<Rightarrow>
                     (case find_base_entry_path (brk m) (heap m) list (full_path ev) of
                        Inl f \<Rightarrow> Inl (f, calls m)
                      | Inr None \<Rightarrow> Inr m
                      | Inr (Some it) \<Rightarrow>
                          (case remove_found_traced m lb list it of
                             Inl fl \<Rightarrow> Inl fl
                           | Inr (m1, lb1, list1) \<Rightarrow>
                               (case add_link_traced c m1 lb1 ident list1 (Some it) None
                                       (full_path ev) of
                                  Inl fl \<Rightarrow> Inl fl
                                | Inr (m2, lb2) \<Rightarrow> Inr (store_self m2 data lb2))))
                 | OBT_WATCH_ADDED \<Rightarrow>
                     (case g_hash_table_lookup (path_to_priority lb) (base_path ev) of
                        None \<Rightarrow> Inl (NullPointer, calls m)
                      | Some p \<Rightarrow>
                          (case find_base_entry_priority (brk m) (heap m) list p of
                             Inl f \<Rightarrow> Inl (f, calls m)
                           | Inr None \<Rightarrow>
                               (case add_link_traced c m lb ident list None (Some p)
                                       (full_path ev) of
                                  Inl fl \<Rightarrow> Inl fl
                                | Inr (m2, lb2) \<Rightarrow> Inr (store_self m2 data lb2))
                           | Inr (Some it) \<Rightarrow>
                               (case read_node (heap m) it of
                                  Inl f \<Rightarrow> Inl (f, calls m)
                                | Inr (d, nx) \<Rightarrow>
                                    (case read_entry (heap m) d of
                                       Inl f \<Rightarrow> Inl (f, calls m)
                                     | Inr (pe, l) \<Rightarrow>
                                         if pe = p then Inr m
                                         else
                                           (case add_link_traced c m lb ident list (Some it)
                                                   (Some p) (full_path ev) of
                                              Inl fl \<Rightarrow> Inl fl
                                            | Inr (m2, lb2) \<Rightarrow>
                                                Inr (store_self m2 data lb2)))))))))"

text \<open>\<open>update_traced\<close>, the calls dropped from its fault.\<close>

definition update :: "collab \<Rightarrow> memory \<Rightarrow> event \<Rightarrow> addr \<Rightarrow> fault + memory" where
  "update c m ev data = map_sum fst id (update_traced c m ev data)"

text \<open>The calls recorded when a run of the handler ends, by a return or by a fault.\<close>

definition calls_made :: "(fault \<times> call_log) + memory \<Rightarrow> call_log" where
  "calls_made r = (case r of Inl fl \<Rightarrow> snd fl | Inr m \<Rightarrow> calls m)"

subsection \<open>Construction and reference counting (lines 289-416)\<close>

text \<open>
  Modelled from the spec: \<^verbatim>\<open>obt_watch_add\<close> (\<^verbatim>\<open>obt/watch.c\<close> is not among the
  sources) installs the watch and at once hands every file the directory holds to the
  handler as \<^verbatim>\<open>OBT_WATCH_ADDED\<close>.
\<close>

definition notification :: "string \<Rightarrow> string \<Rightarrow> ObtWatchNotifyType \<Rightarrow> event" where
  "notification bp f kind =
     \<lparr>base_path = bp, sub_path = f, full_path = g_build_filename bp f, notify_type = kind\<rparr>"

fun replay :: "collab \<Rightarrow> memory \<Rightarrow> addr \<Rightarrow> string \<Rightarrow> string list \<Rightarrow> fault + memory" where
  "replay c m self bp [] = Inr m"
| "replay c m self bp (f # fs) =
     (case update c m (notification bp f OBT_WATCH_ADDED) self of
        Inl e \<Rightarrow> Inl e
      | Inr m' \<Rightarrow> replay c m' self bp fs)"

definition obt_watch_add :: "collab \<Rightarrow> memory \<Rightarrow> addr \<Rightarrow> string \<Rightarrow> fault + memory" where
  "obt_watch_add c m self bp =
     (case read_self (heap m) self of
        Inl e \<Rightarrow> Inl e
      | Inr lb \<Rightarrow>
          replay c (store_self m self (lb\<lparr>watch := watch lb @ [bp]\<rparr>)) self bp
            (dir_contents c bp))"

text \<open>
  The loop of lines 353-373 over the data directories. The test of line 355 looks the
  directory itself up, \<^verbatim>\<open>it->data\<close>; the keys of the table are the paths built on
  line 359.
\<close>

fun register_dirs ::
  "collab \<Rightarrow> memory \<Rightarrow> addr \<Rightarrow> int \<Rightarrow> string list \<Rightarrow> fault + memory" where
  "register_dirs c m self priority [] = Inr m"
| "register_dirs c m self priority (dir # dirs) =
     (case read_self (heap m) self of
        Inl e \<Rightarrow> Inl e
      | Inr lb \<Rightarrow>
          if g_hash_table_lookup (path_to_priority lb) dir = None
          then (let bp = g_build_filename dir ''applications'';
                    m1 = store_self m self
                           (lb\<lparr>path_to_priority :=
                                 g_hash_table_insert (path_to_priority lb) bp priority\<rparr>)
                in case obt_watch_add c m1 self bp of
                     Inl e \<Rightarrow> Inl e
                   | Inr m2 \<Rightarrow> register_dirs c m2 self (gint (priority + 1)) dirs)
          else register_dirs c m self priority dirs)"

text \<open>
  \<^verbatim>\<open>obt_linkbase_new\<close>, lines 289-375. \<^verbatim>\<open>g_slice_new0\<close> zeroes the structure: the
  reference count is 0 and the callback is NULL, and no line before \<^verbatim>\<open>return self\<close>
  writes either.
\<close>

definition obt_linkbase_new ::
  "collab \<Rightarrow> memory \<Rightarrow> string list \<Rightarrow> string \<Rightarrow> nat \<Rightarrow> fault + (memory \<times> addr)" where
  "obt_linkbase_new c m dirs locale env =
     (let (lang, ctry, modf) = parse_locale locale;
          (self, m1) = alloc m (ObtLinkBaseObj
             \<lparr>ref = 0, environments = env, language = lang, country = ctry, modifier = modf,
              paths = dirs, watch = [], base = [], path_to_priority = [], categories = [],
              update_func = None, update_data = None\<rparr>)
      in case register_dirs c m1 self 0 dirs of
           Inl e \<Rightarrow> Inl e
         | Inr m2 \<Rightarrow> Inr (m2, self))"

text \<open>\<^verbatim>\<open>obt_linkbase_ref\<close>, lines 377-380.\<close>

definition obt_linkbase_ref :: "memory \<Rightarrow> addr \<Rightarrow> fault + memory" where
  "obt_linkbase_ref m self =
     (case read_self (heap m) self of
        Inl e \<Rightarrow> Inl e
      | Inr lb \<Rightarrow> Inr (store_self m self (lb\<lparr>ref := gint (ref lb + 1)\<rparr>)))"

text \<open>\<^verbatim>\<open>g_hash_table_foreach(self->base, base_entry_list_free, NULL)\<close>, line 391.\<close>

fun base_foreach_free ::
  "nat \<Rightarrow> (addr \<Rightarrow> obj option) \<Rightarrow> (string \<times> addr) list \<Rightarrow> fault + (addr \<Rightarrow> obj option)" where
  "base_foreach_free n h [] = Inr h"
| "base_foreach_free n h (kv # t) =
     (case base_entry_list_free n h (Some (snd kv)) of
        Inl e \<Rightarrow> Inl e
      | Inr h' \<Rightarrow> base_foreach_free n h' t)"

text \<open>
  \<^verbatim>\<open>obt_linkbase_unref\<close>, lines 382-400: \<^verbatim>\<open>if (--self->ref < 1)\<close> every entry is
  freed and then the structure with its tables.
\<close>

definition obt_linkbase_unref :: "memory \<Rightarrow> addr \<Rightarrow> fault + memory" where
  "obt_linkbase_unref m self =
     (case read_self (heap m) self of
        Inl e \<Rightarrow> Inl e
      | Inr lb \<Rightarrow>
          if gint (ref lb - 1) < 1
          then (case base_foreach_free (brk m) (heap m) (base lb) of
                  Inl e \<Rightarrow> Inl e
                | Inr h \<Rightarrow> Inr (m\<lparr>heap := h(self := None)\<rparr>))
          else Inr (store_self m self (lb\<lparr>ref := gint (ref lb - 1)\<rparr>)))"

text \<open>\<^verbatim>\<open>obt_linkbase_set_update_func\<close>, lines 402-407.\<close>

definition obt_linkbase_set_update_func ::
  "memory \<Rightarrow> addr \<Rightarrow> nat option \<Rightarrow> nat option \<Rightarrow> fault + memory" where
  "obt_linkbase_set_update_func m lb func data =
     (case read_self (heap m) lb of
        Inl e \<Rightarrow> Inl e
      | Inr s \<Rightarrow> Inr (store_self m lb (s\<lparr>update_func := func, update_data := data\<rparr>)))"

text \<open>\<^verbatim>\<open>obt_linkbase_category\<close>, lines 409-416: the empty list is NULL.\<close>

definition obt_linkbase_category :: "memory \<Rightarrow> addr \<Rightarrow> GQuark \<Rightarrow> fault + addr list" where
  "obt_linkbase_category m lb category =
     (case read_self (heap m) lb of
        Inl e \<Rightarrow> Inl e
      | Inr s \<Rightarrow>
          (case g_hash_table_lookup (categories s) category of
             None \<Rightarrow> Inr []
           | Some links \<Rightarrow> Inr links))"

subsection \<open>Sequences of the primary index, and inputs for the examples\<close>

text \<open>
  \<open>base_list h p es\<close>: from the pointer \<open>p\<close> the store \<open>h\<close> holds a list whose nodes,
  with the priority and the record pointer of each node's entry, are \<open>es\<close>.
\<close>

fun base_list ::
  "(addr \<Rightarrow> obj option) \<Rightarrow> addr option \<Rightarrow> (addr \<times> int \<times> addr) list \<Rightarrow> bool" where
  "base_list h p [] = (p = None)"
| "base_list h p (e # es) =
     (case p of
        None \<Rightarrow> False
      | Some a \<Rightarrow>
          a = fst e \<and>
          (case h a of
             Some (GSList d nx) \<Rightarrow>
               h d = Some (ObtLinkBaseEntry (fst (snd e)) (snd (snd e))) \<and> base_list h nx es
           | _ \<Rightarrow> False))"

text \<open>
  The path an entry of a sequence was read from, \<^verbatim>\<open>obt_link_source_file(e->link)\<close>
  of line 96; \<open>None\<close> where the entry does not point to a record.
\<close>

definition entry_path :: "(addr \<Rightarrow> obj option) \<Rightarrow> addr \<times> int \<times> addr \<Rightarrow> string option" where
  "entry_path h e =
     (case read_link h (snd (snd e)) of Inl f \<Rightarrow> None | Inr k \<Rightarrow> Some (source_file k))"

text \<open>
  A parser for which every file is an application in the categories 7 and 8, shown in
  every environment; directories hold no files when they are first watched, and the
  id of a file is its path under the watched directory.
\<close>

definition every_file_an_application :: collab where
  "every_file_an_application =
     \<lparr>obt_link_id_from_ddfile = (\<lambda>sub. sub),
      obt_link_from_ddfile = (\<lambda>path dirs lang ctry modf.
         Some \<lparr>source_file = path, link_type = OBT_LINK_TYPE_APPLICATION,
               app_categories = [7, 8]\<rparr>),
      obt_link_display = (\<lambda>k env. True),
      dir_contents = (\<lambda>dir. [])\<rparr>"

text \<open>The same, when no file can be parsed.\<close>

definition no_file_parses :: collab where
  "no_file_parses =
     every_file_an_application\<lparr>obt_link_from_ddfile := (\<lambda>path dirs lang ctry modf. None)\<rparr>"

text \<open>The same as the first, when every directory holds two launchers and a text file.\<close>

definition two_launchers_each :: collab where
  "two_launchers_each =
     every_file_an_application
       \<lparr>dir_contents := (\<lambda>dir. [''a.desktop'', ''b.desktop'', ''notes.txt''])\<rparr>"

definition fresh_memory :: memory where
  "fresh_memory = \<lparr>heap = Map.empty, brk = 0, calls = []\<rparr>"

text \<open>
  The memory after \<^verbatim>\<open>obt_linkbase_new\<close> for the one directory \<^verbatim>\<open>/d\<close> and the locale
  \<^verbatim>\<open>fr\<close>, followed by \<^verbatim>\<open>obt_linkbase_set_update_func\<close> with the function 1: a
  database at address 0 with nothing indexed yet and a callback registered.
\<close>

definition watching_d :: memory where
  "watching_d =
     \<lparr>heap = [0 \<mapsto> ObtLinkBaseObj
         \<lparr>ref = 0, environments = 0, language = Some ''fr'', country = None, modifier = None,
          paths = [''/d''], watch = [''/d/applications''], base = [],
          path_to_priority = [(''/d/applications'', 0)], categories = [],
          update_func = Some 1, update_data = None\<rparr>],
      brk = 1, calls = []\<rparr>"

subsection \<open>Reachable memories and the shape of the primary index\<close>

text \<open>
  The allocator's half of the store: nothing lives at an address not yet handed out.
\<close>

definition allocated :: "memory \<Rightarrow> bool" where
  "allocated m = (\<forall>a. brk m \<le> a \<longrightarrow> heap m a = None)"

text \<open>
  The memories a database can be in: what \<^verbatim>\<open>obt_linkbase_new\<close> returns from a
  memory of that kind, and from there what the handler returns for any event with any
  parser, and what \<^verbatim>\<open>obt_linkbase_set_update_func\<close> and \<^verbatim>\<open>obt_linkbase_ref\<close>
  return.
\<close>

inductive reachable :: "memory \<Rightarrow> addr \<Rightarrow> bool" where
  constructed:
    "allocated m \<Longrightarrow> obt_linkbase_new c m dirs locale env = Inr (m', self) \<Longrightarrow>
     reachable m' self"
| handled:
    "reachable m self \<Longrightarrow> update c m ev self = Inr m' \<Longrightarrow> reachable m' self"
| callback_set:
    "reachable m self \<Longrightarrow> obt_linkbase_set_update_func m self func data = Inr m' \<Longrightarrow>
     reachable m' self"
| retained:
    "reachable m self \<Longrightarrow> obt_linkbase_ref m self = Inr m' \<Longrightarrow> reachable m' self"

text \<open>The first node of a sequence, or NULL.\<close>

definition first_node :: "(addr \<times> int \<times> addr) list \<Rightarrow> addr option" where
  "first_node es = (case es of [] \<Rightarrow> None | e # _ \<Rightarrow> Some (fst e))"

text \<open>
  The shape of the primary index: \<open>A\<close> gives every id its sequence (the empty one for
  an id that is not a key of the table). Each is the list the table's head for the id
  points to, ascends strictly by priority and has no node twice; the sequences of two
  ids share no node.
\<close>

definition sequences_ok ::
  "memory \<Rightarrow> ObtLinkBase \<Rightarrow> (string \<Rightarrow> (addr \<times> int \<times> addr) list) \<Rightarrow> bool" where
  "sequences_ok m lb A =
     (allocated m \<and>
      (\<forall>i. base_list (heap m) (g_hash_table_lookup (base lb) i) (A i) \<and>
           sorted_wrt (<) (map (\<lambda>e. fst (snd e)) (A i)) \<and> distinct (map fst (A i))) \<and>
      (\<forall>i j. i \<noteq> j \<longrightarrow> set (map fst (A i)) \<inter> set (map fst (A j)) = {}))"

text \<open>The members of a tag, as \<^verbatim>\<open>obt_linkbase_category\<close> returns them.\<close>

definition category_members :: "ObtLinkBase \<Rightarrow> GQuark \<Rightarrow> addr list" where
  "category_members lb tag =
     (case g_hash_table_lookup (categories lb) tag of None \<Rightarrow> [] | Some links \<Rightarrow> links)"

text \<open>
  The category index agrees with the primary index: a pointer is a member of a tag
  exactly when it is the record pointer of an entry of some sequence, and the record
  there is an application that declares the tag.
\<close>

definition categories_ok ::
  "memory \<Rightarrow> ObtLinkBase \<Rightarrow> (string \<Rightarrow> (addr \<times> int \<times> addr) list) \<Rightarrow> bool" where
  "categories_ok m lb A =
     (\<forall>tag l. (l \<in> set (category_members lb tag)) =
        (\<exists>i e r k. e \<in> set (A i) \<and> snd (snd e) = l \<and> heap m l = Some (ObtLinkObj r k) \<and>
           link_type k = OBT_LINK_TYPE_APPLICATION \<and> tag \<in> set (app_categories k)))"

text \<open>Every entry of a sequence points to a record in the store.\<close>

definition records_ok :: "memory \<Rightarrow> (string \<Rightarrow> (addr \<times> int \<times> addr) list) \<Rightarrow> bool" where
  "records_ok m A =
     (\<forall>i. \<forall>e \<in> set (A i). \<exists>r k. heap m (snd (snd e)) = Some (ObtLinkObj r k))"

definition index_ok :: "memory \<Rightarrow> addr \<Rightarrow> bool" where
  "index_ok m self =
     (\<exists>lb A. read_self (heap m) self = Inr lb \<and> sequences_ok m lb A \<and> categories_ok m lb A \<and>
             records_ok m A)"

section \<open>Properties\<close>

subsection \<open>The handler, with the calls left out of its faults\<close>

text \<open>
  What \<open>remove_found\<close>, \<open>add_link\<close> and \<open>update\<close> are, written out: the same
  steps, where a fault is the fault alone.
\<close>

lemma remove_found_unfold:
  "remove_found m lb list it =
     (case read_node (heap m) it of
        Inl f \<Rightarrow> Inl f
      | Inr (link, nx) \<Rightarrow>
          (let m1 = notify lb OBT_LINKBASE_REMOVED link m in
           case read_link (heap m1) link of
             Inl f \<Rightarrow> Inl f
           | Inr k \<Rightarrow>
               (case (if link_type k = OBT_LINK_TYPE_APPLICATION
                      then category_remove_all lb (app_categories k) link
                      else Inr lb) of
                  Inl f \<Rightarrow> Inl f
                | Inr lb1 \<Rightarrow>
                    (case g_slist_delete_link (brk m1) (heap m1) list it of
                       Inl f \<Rightarrow> Inl f
                     | Inr (h2, list2) \<Rightarrow>
                         (case read_node h2 it of
                            Inl f \<Rightarrow> Inl f
                          | Inr (d, nx2) \<Rightarrow>
                              (case base_entry_free h2 d of
                                 Inl f \<Rightarrow> Inl f
                               | Inr h3 \<Rightarrow> Inr (m1\<lparr>heap := h3\<rparr>, lb1, list2)))))))"
  by (simp add: remove_found_def remove_found_traced_def Let_def
           split: sum.splits prod.splits)

lemma add_link_unfold:
  "add_link c m lb ident list it priority path =
     (case obt_link_from_ddfile c path (paths lb) (language lb) (country lb) (modifier lb) of
        None \<Rightarrow> Inr (m, lb)
      | Some k \<Rightarrow>
          (let (link, m1) = alloc m (ObtLinkObj 1 k) in
           if \<not> obt_link_display c k (environments lb)
           then (case obt_link_unref (heap m1) link of
                   Inl f \<Rightarrow> Inl f
                 | Inr h \<Rightarrow> Inr (m1\<lparr>heap := h\<rparr>, lb))
           else (case priority of
                   None \<Rightarrow> Inl Unassigned
                 | Some p \<Rightarrow>
                     (let (e, m2) = alloc m1 (ObtLinkBaseEntry p link);
                          m3 = notify lb OBT_LINKBASE_ADDED link m2
                      in case g_slist_insert_before m3 list it e of
                           Inl f \<Rightarrow> Inl f
                         | Inr (m4, head) \<Rightarrow>
                             (let lb1 = lb\<lparr>base := g_hash_table_insert (base lb) ident head\<rparr>
                              in Inr (m4,
                                      if link_type k = OBT_LINK_TYPE_APPLICATION
                                      then category_add_all lb1 (app_categories k) link
                                      else lb1))))))"
  by (simp add: add_link_def add_link_traced_def Let_def
           split: sum.splits prod.splits option.splits)

lemma update_unfold:
  "update c m ev data =
     (if \<not> g_str_has_suffix (sub_path ev) ''.desktop'' then Inr m
      else
        (case read_self (heap m) data of
           Inl f \<Rightarrow> Inl f
         | Inr lb \<Rightarrow>
             (let ident = obt_link_id_from_ddfile c (sub_path ev);
                  list = g_hash_table_lookup (base lb) ident
              in case notify_type ev of
                   OBT_WATCH_SELF_REMOVED \<Rightarrow> Inr m
                 | OBT_WATCH_REMOVED \<Rightarrow>
                     (case find_base_entry_path (brk m) (heap m) list (full_path ev) of
                        Inl f \<Rightarrow> Inl f
                      | Inr None \<Rightarrow> Inr m
                      | Inr (Some it) \<Rightarrow>
                          (case remove_found m lb list it of
                             Inl f \<Rightarrow> Inl f
                           | Inr (m1, lb1, list1) \<Rightarrow>
                               (case list1 of
                                  Some head \<Rightarrow>
                                    Inr (store_self m1 data
                                      (lb1\<lparr>base := g_hash_table_insert (base lb1) ident head\<rparr>))
                                | None \<Rightarrow>
                                    Inr (store_self m1 data
                                      (lb1\<lparr>base := g_hash_table_remove (base lb1) ident\<rparr>)))))
                 | OBT_WATCH_MODIFIED \<Rightarrow>
                     (case find_base_entry_path (brk m) (heap m) list (full_path ev) of
                        Inl f \<Rightarrow> Inl f
                      | Inr None \<Rightarrow> Inr m
                      | Inr (Some it) \<Rightarrow>
                          (case remove_found m lb list it of
                             Inl f \<Rightarrow> Inl f
                           | Inr (m1, lb1, list1) \<Rightarrow>
                               (case add_link c m1 lb1 ident list1 (Some it) None
                                       (full_path ev) of
                                  Inl f \<Rightarrow> Inl f
                                | Inr (m2, lb2) \<Rightarrow> Inr (store_self m2 data lb2))))
                 | OBT_WATCH_ADDED \<Rightarrow>
                     (case g_hash_table_lookup (path_to_priority lb) (base_path ev) of
                        None \<Rightarrow> Inl NullPointer
                      | Some p \<Rightarrow>
                          (case find_base_entry_priority (brk m) (heap m) list p of
                             Inl f \<Rightarrow> Inl f
                           | Inr None \<Rightarrow>
                               (case add_link c m lb ident list None (Some p) (full_path ev) of
                                  Inl f \<Rightarrow> Inl f
                                | Inr (m2, lb2) \<Rightarrow> Inr (store_self m2 data lb2))
                           | Inr (Some it) \<Rightarrow>
                               (case read_node (heap m) it of
                                  Inl f \<Rightarrow> Inl f
                                | Inr (d, nx) \<Rightarrow>
                                    (case read_entry (heap m) d of
                                       Inl f \<Rightarrow> Inl f
                                     | Inr (pe, l) \<Rightarrow>
                                         if pe = p then Inr m
                                         else
                                           (case add_link c m lb ident list (Some it) (Some p)
                                                   (full_path ev) of
                                              Inl f \<Rightarrow> Inl f
                                            | Inr (m2, lb2) \<Rightarrow>
                                                Inr (store_self m2 data lb2)))))))))"
proof (cases "g_str_has_suffix (sub_path ev) ''.desktop''")
  case False
  then show ?thesis by (simp add: update_def update_traced_def)
next
  case True
  show ?thesis
  proof (cases "read_self (heap m) data")
    case (Inl f)
    with True show ?thesis by (simp add: update_def update_traced_def)
  next
    case (Inr lb)
    show ?thesis
    proof (cases "notify_type ev")
      case OBT_WATCH_ADDED
      with True Inr show ?thesis
        by (simp add: update_def update_traced_def add_link_def Let_def
                 split: sum.splits prod.splits option.splits)
    next
      case OBT_WATCH_REMOVED
      with True Inr show ?thesis
        by (simp add: update_def update_traced_def remove_found_def Let_def
                 split: sum.splits prod.splits option.splits)
    next
      case OBT_WATCH_MODIFIED
      with True Inr show ?thesis
        by (simp add: update_def update_traced_def remove_found_def add_link_def Let_def
                 split: sum.splits prod.splits option.splits)
    next
      case OBT_WATCH_SELF_REMOVED
      with True Inr show ?thesis by (simp add: update_def update_traced_def Let_def)
    qed
  qed
qed

subsection \<open>Evaluation of the examples\<close>

lemmas model_defs =
  obt_linkbase_new_def obt_watch_add_def update_unfold add_link_unfold remove_found_unfold
  obt_linkbase_ref_def obt_linkbase_unref_def obt_linkbase_set_update_func_def
  obt_linkbase_category_def notify_def alloc_def read_node_def read_entry_def read_link_def
  read_self_def store_self_def g_str_has_suffix_def g_build_filename_def
  is_dir_separator_def strip_separators_def gint_def
  g_hash_table_lookup_def g_hash_table_remove_def g_slist_delete_link_def
  g_slist_insert_before_def base_entry_free_def base_entry_list_free_def obt_link_unref_def
  category_add_def category_remove_def Let_def
  every_file_an_application_def no_file_parses_def two_launchers_each_def
  fresh_memory_def notification_def

lemma parse_locale_fr: "parse_locale ''fr'' = (Some ''fr'', None, None)"
  by code_simp

text \<open>The memory \<open>watching_d\<close> is what construction and registration of a callback give.\<close>

lemma watching_d_reached:
  "(case obt_linkbase_new every_file_an_application fresh_memory [''/d''] ''fr'' 0 of
      Inl f \<Rightarrow> False
    | Inr (m, self) \<Rightarrow>
        self = 0 \<and> obt_linkbase_set_update_func m self (Some 1) None = Inr watching_d)"
  by (simp add: model_defs parse_locale_fr watching_d_def)

subsection \<open>The handler on a file that is indexed\<close>

text \<open>
  A node that \<^verbatim>\<open>find_base_entry_path\<close> returns holds an entry, so the steps of lines
  177-193 read an entry where they expect a record; and since line 192 frees the node
  that line 193 reads, they return for no node at all.
\<close>

lemma heap_notify [simp]: "heap (notify lb kind link m) = heap m"
  by (simp add: notify_def split: option.splits)

lemma brk_notify [simp]: "brk (notify lb kind link m) = brk m"
  by (simp add: notify_def split: option.splits)

lemma notify_unregistered [simp]: "update_func lb = None \<Longrightarrow> notify lb kind link m = m"
  by (simp add: notify_def)

lemma find_base_entry_path_found:
  "find_base_entry_path n h list path = Inr (Some it) \<Longrightarrow>
   \<exists>d nx p l. h it = Some (GSList d nx) \<and> h d = Some (ObtLinkBaseEntry p l)"
proof (induction n h list path rule: find_base_entry_path.induct)
  case (3 n h a path)
  then show ?case
    by (auto simp: read_node_def read_entry_def read_link_def
             split: sum.splits option.splits obj.splits if_splits prod.splits)
qed simp_all

lemma remove_found_takes_entry_for_record:
  assumes "heap m it = Some (GSList d nx)" and "heap m d = Some (ObtLinkBaseEntry p l)"
  shows "remove_found m lb list it = Inl WrongType"
  using assms by (simp add: remove_found_unfold read_node_def read_link_def Let_def)

lemma remove_found_never_returns: "remove_found m lb list it \<noteq> Inr r"
  by (auto simp: remove_found_unfold Let_def g_slist_delete_link_def read_node_def
           split: sum.splits prod.splits option.splits obj.splits if_splits)

lemma update_found_faults:
  assumes "g_str_has_suffix (sub_path ev) ''.desktop''"
    and "read_self (heap m) data = Inr lb"
    and "notify_type ev = OBT_WATCH_REMOVED \<or> notify_type ev = OBT_WATCH_MODIFIED"
    and "find_base_entry_path (brk m) (heap m)
           (g_hash_table_lookup (base lb) (obt_link_id_from_ddfile c (sub_path ev)))
           (full_path ev) = Inr (Some it)"
  shows "update c m ev data = Inl WrongType"
proof -
  from find_base_entry_path_found [OF assms(4)] obtain d nx p l
    where "heap m it = Some (GSList d nx)" "heap m d = Some (ObtLinkBaseEntry p l)" by blast
  then have "remove_found m lb (g_hash_table_lookup (base lb) (obt_link_id_from_ddfile c (sub_path ev))) it = Inl WrongType"
    by (rule remove_found_takes_entry_for_record)
  with assms show ?thesis
    by (auto simp: update_unfold Let_def)
qed

lemma modified_not_found_unchanged:
  assumes "read_self (heap m) data = Inr lb"
    and "notify_type ev = OBT_WATCH_MODIFIED"
    and "find_base_entry_path (brk m) (heap m)
           (g_hash_table_lookup (base lb) (obt_link_id_from_ddfile c (sub_path ev)))
           (full_path ev) = Inr None"
  shows "update c m ev data = Inr m"
  using assms by (simp add: update_unfold Let_def)

text \<open>
  In an ascending sequence that has the priority \<open>p\<close>, the first entry of priority at
  least \<open>p\<close> is the one of priority \<open>p\<close>.
\<close>

lemma find_base_entry_priority_present:
  "base_list h p0 es \<Longrightarrow> sorted_wrt (<) (map (\<lambda>e. fst (snd e)) es) \<Longrightarrow>
   p \<in> set (map (\<lambda>e. fst (snd e)) es) \<Longrightarrow> length es \<le> n \<Longrightarrow>
   \<exists>it d nx l. find_base_entry_priority n h p0 p = Inr (Some it) \<and>
     h it = Some (GSList d nx) \<and> h d = Some (ObtLinkBaseEntry p l)"
proof (induction es arbitrary: p0 n)
  case Nil
  then show ?case by simp
next
  case (Cons e es)
  from Cons.prems(1) obtain a d nx where p0: "p0 = Some a" and a: "a = fst e"
    and ha: "h a = Some (GSList d nx)"
    and hd: "h d = Some (ObtLinkBaseEntry (fst (snd e)) (snd (snd e)))"
    and rest: "base_list h nx es"
    by (auto split: option.splits obj.splits)
  from Cons.prems(4) obtain k where n: "n = Suc k" and k: "length es \<le> k"
    by (cases n) auto
  show ?case
  proof (cases "fst (snd e) \<ge> p")
    case True
    have "fst (snd e) = p"
    proof (cases "p = fst (snd e)")
      case False
      with Cons.prems(3) have "p \<in> set (map (\<lambda>e. fst (snd e)) es)" by auto
      with Cons.prems(2) have "fst (snd e) < p" by auto
      with True show ?thesis by simp
    qed simp
    then show ?thesis
      using p0 ha hd n by (auto simp: read_node_def read_entry_def case_prod_beta)
  next
    case False
    with Cons.prems(3) have mem: "p \<in> set (map (\<lambda>e. fst (snd e)) es)" by auto
    from Cons.prems(2) have srt: "sorted_wrt (<) (map (\<lambda>e. fst (snd e)) es)" by simp
    from Cons.IH [OF rest srt mem k] obtain it d' nx' l'
      where "find_base_entry_priority k h nx p = Inr (Some it)"
        "h it = Some (GSList d' nx')" "h d' = Some (ObtLinkBaseEntry p l')" by blast
    then show ?thesis
      using p0 ha hd n False by (auto simp: read_node_def read_entry_def case_prod_beta)
  qed
qed

lemma duplicate_add_helper:
  assumes "read_self (heap m) data = Inr lb"
    and "notify_type ev = OBT_WATCH_ADDED"
    and "g_hash_table_lookup (path_to_priority lb) (base_path ev) = Some p"
    and "base_list (heap m)
           (g_hash_table_lookup (base lb) (obt_link_id_from_ddfile c (sub_path ev))) es"
    and "sorted_wrt (<) (map (\<lambda>e. fst (snd e)) es)"
    and "p \<in> set (map (\<lambda>e. fst (snd e)) es)"
    and "length es \<le> brk m"
  shows "update c m ev data = Inr m"
proof -
  from find_base_entry_priority_present [OF assms(4) assms(5) assms(6) assms(7)]
  obtain it d nx l where
    "find_base_entry_priority (brk m) (heap m)
       (g_hash_table_lookup (base lb) (obt_link_id_from_ddfile c (sub_path ev))) p = Inr (Some it)"
    "heap m it = Some (GSList d nx)" "heap m d = Some (ObtLinkBaseEntry p l)" by blast
  with assms(1-3) show ?thesis
    by (simp add: update_unfold Let_def read_node_def read_entry_def)
qed


text \<open>
  What the handler and the construction leave alone: the callback and the reference
  count of the database, and, with no callback registered, the recorded calls.
\<close>

lemma calls_alloc [simp]: "calls (snd (alloc m ob)) = calls m"
  by (simp add: alloc_def)

lemma category_add_frame [simp]:
  "update_func (category_add lb cat link) = update_func lb"
  "ref (category_add lb cat link) = ref lb"
  by (simp_all add: category_add_def split: option.splits)

lemma category_add_all_frame [simp]:
  "update_func (category_add_all lb cats link) = update_func lb"
  "ref (category_add_all lb cats link) = ref lb"
  by (induction lb cats link rule: category_add_all.induct) simp_all

lemma g_slist_insert_before_calls:
  "g_slist_insert_before m slist sibling data = Inr (m', head) \<Longrightarrow> calls m' = calls m"
  by (auto simp: g_slist_insert_before_def alloc_def Let_def
           split: option.splits sum.splits prod.splits)

lemma add_link_frame:
  assumes "add_link c m lb ident list it pri path = Inr (m', lb')"
  shows "update_func lb' = update_func lb \<and> ref lb' = ref lb \<and>
         (update_func lb = None \<longrightarrow> calls m' = calls m)"
  using assms
  by (auto simp: add_link_unfold alloc_def Let_def
           dest!: g_slist_insert_before_calls
           split: option.splits sum.splits prod.splits if_splits)

lemma read_self_store_self [simp]: "read_self (heap (store_self m a lb)) a = Inr lb"
  by (simp add: read_self_def store_self_def)

lemma calls_store_self [simp]: "calls (store_self m a lb) = calls m"
  by (simp add: store_self_def)

lemma update_frame:
  assumes "read_self (heap m) data = Inr lb" and "update c m ev data = Inr m'"
  shows "\<exists>lb'. read_self (heap m') data = Inr lb' \<and> update_func lb' = update_func lb \<and>
           ref lb' = ref lb \<and> (update_func lb = None \<longrightarrow> calls m' = calls m)"
proof (cases "g_str_has_suffix (sub_path ev) ''.desktop''")
  case False
  with assms show ?thesis by (simp add: update_unfold)
next
  case True
  show ?thesis
  proof (cases "notify_type ev")
    case OBT_WATCH_ADDED
    with True assms show ?thesis
      by (auto simp: update_unfold Let_def
               dest!: add_link_frame
               split: option.splits sum.splits prod.splits if_splits)
  next
    case OBT_WATCH_REMOVED
    with True assms show ?thesis
      by (auto simp: update_unfold Let_def remove_found_never_returns
               split: option.splits sum.splits prod.splits)
  next
    case OBT_WATCH_MODIFIED
    with True assms show ?thesis
      by (auto simp: update_unfold Let_def remove_found_never_returns
               split: option.splits sum.splits prod.splits)
  next
    case OBT_WATCH_SELF_REMOVED
    with True assms show ?thesis by (simp add: update_unfold Let_def)
  qed
qed

lemma replay_frame:
  "read_self (heap m) self = Inr lb \<Longrightarrow> replay c m self bp fs = Inr m' \<Longrightarrow>
   \<exists>lb'. read_self (heap m') self = Inr lb' \<and> update_func lb' = update_func lb \<and>
     ref lb' = ref lb \<and> (update_func lb = None \<longrightarrow> calls m' = calls m)"
proof (induction fs arbitrary: m lb)
  case Nil
  then show ?case by simp
next
  case (Cons f fs)
  from Cons.prems(2) obtain m1 where
    u: "update c m (notification bp f OBT_WATCH_ADDED) self = Inr m1"
    and r: "replay c m1 self bp fs = Inr m'"
    by (auto split: sum.splits)
  from update_frame [OF Cons.prems(1) u] obtain lb1 where
    l1: "read_self (heap m1) self = Inr lb1" "update_func lb1 = update_func lb"
      "ref lb1 = ref lb" "update_func lb = None \<longrightarrow> calls m1 = calls m" by auto
  from Cons.IH [OF l1(1) r] l1 show ?case by auto
qed

lemma obt_watch_add_frame:
  assumes "read_self (heap m) self = Inr lb" and "obt_watch_add c m self bp = Inr m'"
  shows "\<exists>lb'. read_self (heap m') self = Inr lb' \<and> update_func lb' = update_func lb \<and>
     ref lb' = ref lb \<and> (update_func lb = None \<longrightarrow> calls m' = calls m)"
proof -
  let ?lb = "lb\<lparr>watch := watch lb @ [bp]\<rparr>"
  from assms have r: "replay c (store_self m self ?lb) self bp (dir_contents c bp) = Inr m'"
    by (simp add: obt_watch_add_def)
  have "read_self (heap (store_self m self ?lb)) self = Inr ?lb" by simp
  from replay_frame [OF this r] show ?thesis by auto
qed

lemma register_dirs_frame:
  "read_self (heap m) self = Inr lb \<Longrightarrow> register_dirs c m self priority dirs = Inr m' \<Longrightarrow>
   \<exists>lb'. read_self (heap m') self = Inr lb' \<and> update_func lb' = update_func lb \<and>
     ref lb' = ref lb \<and> (update_func lb = None \<longrightarrow> calls m' = calls m)"
proof (induction dirs arbitrary: m lb priority)
  case Nil
  then show ?case by simp
next
  case (Cons dir dirs)
  show ?case
  proof (cases "g_hash_table_lookup (path_to_priority lb) dir = None")
    case False
    with Cons.prems have "register_dirs c m self priority dirs = Inr m'" by simp
    from Cons.IH [OF Cons.prems(1) this] show ?thesis .
  next
    case True
    let ?bp = "g_build_filename dir ''applications''"
    let ?lb = "lb\<lparr>path_to_priority := g_hash_table_insert (path_to_priority lb) ?bp priority\<rparr>"
    from True Cons.prems obtain m2 where
      w: "obt_watch_add c (store_self m self ?lb) self ?bp = Inr m2"
      and r: "register_dirs c m2 self (gint (priority + 1)) dirs = Inr m'"
      by (auto simp: Let_def split: sum.splits)
    have "read_self (heap (store_self m self ?lb)) self = Inr ?lb" by simp
    from obt_watch_add_frame [OF this w] obtain lb2 where
      l2: "read_self (heap m2) self = Inr lb2" "update_func lb2 = update_func lb"
        "ref lb2 = ref lb" "update_func lb = None \<longrightarrow> calls m2 = calls m" by auto
    from Cons.IH [OF l2(1) r] l2 show ?thesis by auto
  qed
qed

lemma obt_linkbase_new_frame:
  assumes "obt_linkbase_new c m dirs locale env = Inr (m', self)"
  shows "\<exists>lb. read_self (heap m') self = Inr lb \<and> update_func lb = None \<and> ref lb = 0 \<and>
           calls m' = calls m"
proof -
  obtain lang ctry modf where pl: "parse_locale locale = (lang, ctry, modf)"
    by (cases "parse_locale locale") auto
  let ?lb = "\<lparr>ref = 0, environments = env, language = lang, country = ctry, modifier = modf,
              paths = dirs, watch = [], base = [], path_to_priority = [], categories = [],
              update_func = None, update_data = None\<rparr>"
  let ?m1 = "snd (alloc m (ObtLinkBaseObj ?lb))"
  from assms pl have s: "self = brk m" and r: "register_dirs c ?m1 self 0 dirs = Inr m'"
    by (auto simp: obt_linkbase_new_def alloc_def Let_def split: sum.splits)
  have "read_self (heap ?m1) self = Inr ?lb"
    using s by (simp add: alloc_def read_self_def)
  from register_dirs_frame [OF this r] show ?thesis by (auto simp: alloc_def)
qed

lemma add_link_unassigned:
  assumes "obt_link_from_ddfile c path (paths lb) (language lb) (country lb) (modifier lb) = Some k"
    and "obt_link_display c k (environments lb)"
  shows "add_link c m lb ident list it None path = Inl Unassigned"
  using assms by (simp add: add_link_unfold alloc_def Let_def)

subsection \<open>The calls of a run that ends in a fault\<close>

text \<open>
  With no callback registered, no run of the handler records a call, whether it
  returns or faults: not at lines 179-181 or 215-217, after which every run faults,
  and not at lines 264-266.
\<close>

lemma remove_found_traced_faults:
  "\<exists>f log. remove_found_traced m lb list it = Inl (f, log)"
proof (cases "remove_found_traced m lb list it")
  case (Inl fl)
  then show ?thesis by (cases fl) simp
next
  case (Inr r)
  then have "remove_found m lb list it = Inr r" by (simp add: remove_found_def)
  with remove_found_never_returns show ?thesis by blast
qed

lemma remove_found_traced_quiet:
  assumes "update_func lb = None" and "remove_found_traced m lb list it = Inl (f, log)"
  shows "log = calls m"
  using assms
  by (auto simp: remove_found_traced_def Let_def split: sum.splits prod.splits)

lemma add_link_traced_quiet:
  assumes "update_func lb = None"
  shows "add_link_traced c m lb ident list it priority path = Inl (f, log) \<Longrightarrow> log = calls m"
    and "add_link_traced c m lb ident list it priority path = Inr (m', lb') \<Longrightarrow>
         calls m' = calls m"
  using assms
  by (auto simp: add_link_traced_def alloc_def Let_def
           dest!: g_slist_insert_before_calls
           split: sum.splits prod.splits option.splits if_splits)

lemma update_traced_quiet:
  assumes "read_self (heap m) data = Inr lb" and "update_func lb = None"
  shows "calls_made (update_traced c m ev data) = calls m"
proof (cases "g_str_has_suffix (sub_path ev) ''.desktop''")
  case False
  then show ?thesis by (simp add: update_traced_def calls_made_def)
next
  case True
  define ident where "ident = obt_link_id_from_ddfile c (sub_path ev)"
  define list where "list = g_hash_table_lookup (base lb) ident"
  have found: "calls_made (update_traced c m ev data) = calls m"
    if kind: "notify_type ev = OBT_WATCH_REMOVED \<or> notify_type ev = OBT_WATCH_MODIFIED"
      and it: "find_base_entry_path (brk m) (heap m) list (full_path ev) = Inr (Some it)"
    for it
  proof -
    from remove_found_traced_faults obtain f log where
      rf: "remove_found_traced m lb list it = Inl (f, log)" by blast
    from remove_found_traced_quiet [OF assms(2) rf] have "log = calls m" .
    with kind it rf True assms(1) show ?thesis
      by (auto simp: update_traced_def calls_made_def Let_def ident_def list_def)
  qed
  show ?thesis
  proof (cases "notify_type ev")
    case OBT_WATCH_SELF_REMOVED
    with True assms show ?thesis by (simp add: update_traced_def calls_made_def)
  next
    case OBT_WATCH_REMOVED
    show ?thesis
    proof (cases "find_base_entry_path (brk m) (heap m) list (full_path ev)")
      case (Inl f)
      with OBT_WATCH_REMOVED True assms(1) show ?thesis
        by (simp add: update_traced_def calls_made_def Let_def ident_def list_def)
    next
      case (Inr r)
      show ?thesis
      proof (cases r)
        case None
        with Inr OBT_WATCH_REMOVED True assms(1) show ?thesis
          by (simp add: update_traced_def calls_made_def Let_def ident_def list_def)
      next
        case (Some it)
        with Inr OBT_WATCH_REMOVED found show ?thesis by simp
      qed
    qed
  next
    case OBT_WATCH_MODIFIED
    show ?thesis
    proof (cases "find_base_entry_path (brk m) (heap m) list (full_path ev)")
      case (Inl f)
      with OBT_WATCH_MODIFIED True assms(1) show ?thesis
        by (simp add: update_traced_def calls_made_def Let_def ident_def list_def)
    next
      case (Inr r)
      show ?thesis
      proof (cases r)
        case None
        with Inr OBT_WATCH_MODIFIED True assms(1) show ?thesis
          by (simp add: update_traced_def calls_made_def Let_def ident_def list_def)
      next
        case (Some it)
        with Inr OBT_WATCH_MODIFIED found show ?thesis by simp
      qed
    qed
  next
    case OBT_WATCH_ADDED
    with True assms(1) show ?thesis
      by (auto simp: update_traced_def calls_made_def Let_def
               dest: add_link_traced_quiet [OF assms(2)]
               split: sum.splits option.splits prod.splits if_splits)
  qed
qed

text \<open>
  With a callback registered the removal of an indexed file does record a call before
  it faults, and the pointer the callback is given is the entry (address 2), not the
  record (address 1) it was given when the file was added.
\<close>

lemma removed_event_calls_registered_callback:
  "(case update_traced every_file_an_application watching_d
           (notification ''/d/applications'' ''a.desktop'' OBT_WATCH_ADDED) 0 of
      Inl fl \<Rightarrow> False
    | Inr m1 \<Rightarrow>
        calls m1 = [(1, OBT_LINKBASE_ADDED, 1, None)] \<and>
        update_traced every_file_an_application m1
          (notification ''/d/applications'' ''a.desktop'' OBT_WATCH_REMOVED) 0 =
        Inl (WrongType, [(1, OBT_LINKBASE_ADDED, 1, None), (1, OBT_LINKBASE_REMOVED, 2, None)]))"
  by (simp add: model_defs update_traced_def add_link_traced_def remove_found_traced_def
                watching_d_def)

subsection \<open>Lists in the store\<close>

text \<open>
  A list read from the store is not changed by writes elsewhere; its length is below
  the bound of the walks; \<^verbatim>\<open>find_base_entry_priority\<close> returns the node that starts
  the entries of priority at least \<open>p\<close>, and \<^verbatim>\<open>g_slist_insert_before\<close> puts the new
  node right before it.
\<close>

lemma lookup_insert [simp]:
  "g_hash_table_lookup (g_hash_table_insert t k v) k' =
     (if k' = k then Some v else g_hash_table_lookup t k')"
  by (induction t k v rule: g_hash_table_insert.induct) (auto simp: g_hash_table_lookup_def)

lemma base_list_None [simp]: "base_list h None es = (es = [])"
  by (cases es) auto

lemma base_list_frame:
  "base_list h p es \<Longrightarrow> \<forall>a \<in> set (map fst es). h' a = h a \<Longrightarrow>
   \<forall>d q l. h d = Some (ObtLinkBaseEntry q l) \<longrightarrow> h' d = h d \<Longrightarrow>
   base_list h' p es"
proof (induction es arbitrary: p)
  case Nil
  then show ?case by simp
next
  case (Cons e es)
  then show ?case
    by (auto split: option.splits obj.splits)
qed

lemma base_list_nodes_live:
  "base_list h p es \<Longrightarrow> a \<in> set (map fst es) \<Longrightarrow> \<exists>d nx. h a = Some (GSList d nx)"
proof (induction es arbitrary: p)
  case Nil
  then show ?case by simp
next
  case (Cons e es)
  then show ?case
    by (auto split: option.splits obj.splits)
qed

lemma base_list_length:
  assumes "base_list (heap m) p es" and "distinct (map fst es)" and "allocated m"
  shows "length es \<le> brk m"
proof -
  have "set (map fst es) \<subseteq> {..<brk m}"
  proof
    fix a assume "a \<in> set (map fst es)"
    from base_list_nodes_live [OF assms(1) this] have "heap m a \<noteq> None" by auto
    with assms(3) show "a \<in> {..<brk m}"
      unfolding allocated_def by (metis lessThan_iff not_le_imp_less)
  qed
  then have "card (set (map fst es)) \<le> card {..<brk m}"
    by (intro card_mono) auto
  moreover from assms(2) have "card (set (map fst es)) = length es"
    using distinct_card [of "map fst es"] by simp
  ultimately show ?thesis by simp
qed

lemma find_base_entry_priority_char:
  "base_list h p0 es \<Longrightarrow> length es \<le> n \<Longrightarrow>
   find_base_entry_priority n h p0 p =
     Inr (first_node (dropWhile (\<lambda>e. fst (snd e) < p) es))"
proof (induction es arbitrary: p0 n)
  case Nil
  then show ?case by (simp add: first_node_def)
next
  case (Cons e es)
  from Cons.prems(1) obtain d nx where p0: "p0 = Some (fst e)"
    and ha: "h (fst e) = Some (GSList d nx)"
    and hd: "h d = Some (ObtLinkBaseEntry (fst (snd e)) (snd (snd e)))"
    and rest: "base_list h nx es"
    by (auto split: option.splits obj.splits)
  from Cons.prems(2) obtain k where n: "n = Suc k" and k: "length es \<le> k"
    by (cases n) auto
  show ?case
    using p0 ha hd n Cons.IH [OF rest k]
    by (auto simp: read_node_def read_entry_def first_node_def case_prod_beta)
qed

lemma insert_before_walk_char:
  "base_list h p0 (pre @ post) \<Longrightarrow> distinct (map fst (pre @ post)) \<Longrightarrow>
   length (pre @ post) \<le> n \<Longrightarrow>
   insert_before_walk n h p0 prev (first_node post) =
     Inr (if pre = [] then prev else Some (fst (last pre)))"
proof (induction pre arbitrary: p0 n prev)
  case Nil
  show ?case
  proof (cases post)
    case Nil
    with Nil.prems show ?thesis by (simp add: first_node_def)
  next
    case (Cons e es)
    with Nil.prems obtain k where "n = Suc k" by (cases n) auto
    with Cons Nil.prems show ?thesis
      by (auto simp: first_node_def split: option.splits)
  qed
next
  case (Cons e pre)
  from Cons.prems(1) obtain d nx where p0: "p0 = Some (fst e)"
    and ha: "h (fst e) = Some (GSList d nx)"
    and rest: "base_list h nx (pre @ post)"
    by (auto split: option.splits obj.splits)
  from Cons.prems(3) obtain k where n: "n = Suc k" and k: "length (pre @ post) \<le> k"
    by (cases n) auto
  from Cons.prems(2) have dist: "distinct (map fst (pre @ post))"
    and notin: "fst e \<notin> set (map fst post)" by auto
  have ne: "Some (fst e) \<noteq> first_node post"
    using notin by (auto simp: first_node_def split: list.splits)
  from Cons.IH [OF rest dist k, of "Some (fst e)"] p0 ha n ne
  show ?case
    by (auto simp: read_node_def)
qed

lemma insert_after_last:
  "base_list h p0 (pre @ post) \<Longrightarrow> pre \<noteq> [] \<Longrightarrow> distinct (map fst (pre @ post)) \<Longrightarrow>
   h new = None \<Longrightarrow> h (fst (last pre)) = Some (GSList dp nxp) \<Longrightarrow>
   h data = Some (ObtLinkBaseEntry q l) \<Longrightarrow>
   h' = h(new \<mapsto> GSList data nxp, fst (last pre) \<mapsto> GSList dp (Some new)) \<Longrightarrow>
   base_list h' p0 (pre @ (new, q, l) # post)"
proof (induction pre arbitrary: p0)
  case Nil
  then show ?case by simp
next
  case (Cons e pre)
  from Cons.prems(1) obtain d nx where p0: "p0 = Some (fst e)"
    and ha: "h (fst e) = Some (GSList d nx)"
    and hd: "h d = Some (ObtLinkBaseEntry (fst (snd e)) (snd (snd e)))"
    and rest: "base_list h nx (pre @ post)"
    by (auto split: option.splits obj.splits)
  have new_e: "new \<noteq> fst e" using ha Cons.prems(4) by auto
  have new_d: "new \<noteq> d" using hd Cons.prems(4) by auto
  have new_data: "new \<noteq> data" using Cons.prems(4,6) by auto
  show ?case
  proof (cases "pre = []")
    case True
    then have last: "fst (last (e # pre)) = fst e" by simp
    with Cons.prems(5) ha have dp: "dp = d" "nxp = nx" by auto
    have d_e: "d \<noteq> fst e" using ha hd by auto
    have data_e: "data \<noteq> fst e" using ha Cons.prems(6) by auto
    from True rest have post: "base_list h nx post" by simp
    have h'_e: "h' (fst e) = Some (GSList d (Some new))"
      using Cons.prems(7) last dp by simp
    have h'_new: "h' new = Some (GSList data nx)"
      using Cons.prems(7) last dp new_e by simp
    have h'_d: "h' d = h d"
      using Cons.prems(7) last new_d d_e by simp
    have h'_data: "h' data = h data"
      using Cons.prems(7) last new_data data_e by simp
    have "base_list h' nx post"
    proof (rule base_list_frame [OF post])
      show "\<forall>a\<in>set (map fst post). h' a = h a"
      proof
        fix a assume a: "a \<in> set (map fst post)"
        from base_list_nodes_live [OF post a] Cons.prems(4) have "a \<noteq> new" by auto
        moreover from a Cons.prems(3) have "a \<noteq> fst e" by force
        ultimately show "h' a = h a" using last Cons.prems(7) by simp
      qed
      show "\<forall>d q l. h d = Some (ObtLinkBaseEntry q l) \<longrightarrow> h' d = h d"
        using last ha Cons.prems(4,7) by auto
    qed
    then show ?thesis
      using True p0 h'_e h'_new h'_d h'_data hd Cons.prems(6) by simp
  next
    case False
    then have last: "last (e # pre) = last pre" by simp
    from Cons.prems(3) have dist: "distinct (map fst (pre @ post))" by simp
    from Cons.prems(5) last have lp: "h (fst (last pre)) = Some (GSList dp nxp)" by simp
    have h': "h' = h(new \<mapsto> GSList data nxp, fst (last pre) \<mapsto> GSList dp (Some new))"
      using Cons.prems(7) unfolding last .
    from Cons.IH [OF rest False dist Cons.prems(4) lp Cons.prems(6) h']
    have ih: "base_list h' nx (pre @ (new, q, l) # post)" .
    have "fst (last pre) \<in> set (map fst pre)" using False by simp
    with Cons.prems(3) have lp_e: "fst (last pre) \<noteq> fst e" by force
    have lp_d: "fst (last pre) \<noteq> d" using lp hd by auto
    have h'_e: "h' (fst e) = h (fst e)" using h' lp_e new_e by simp
    have h'_d: "h' d = h d" using h' lp_d new_d by simp
    show ?thesis
      using p0 ha hd ih h'_e h'_d by simp
  qed
qed


lemma g_slist_insert_before_effect:
  assumes al: "allocated m"
    and bl: "base_list (heap m) slist (pre @ post)"
    and dist: "distinct (map fst (pre @ post))"
    and dat: "heap m data = Some (ObtLinkBaseEntry q l)"
  shows "\<exists>m' head. g_slist_insert_before m slist (first_node post) data = Inr (m', head) \<and>
           brk m' = Suc (brk m) \<and> calls m' = calls m \<and>
           base_list (heap m') (Some head) (pre @ (brk m, q, l) # post) \<and>
           (\<forall>a. a \<noteq> brk m \<longrightarrow> a \<notin> set (map fst (pre @ post)) \<longrightarrow> heap m' a = heap m a) \<and>
           (\<forall>a. heap m' a = None \<longrightarrow> a \<noteq> brk m \<longrightarrow> heap m a = None) \<and>
           (\<forall>d q l. heap m d = Some (ObtLinkBaseEntry q l) \<longrightarrow> heap m' d = heap m d)"
proof -
  have fresh: "heap m (brk m) = None" using al by (simp add: allocated_def)
  have len: "length (pre @ post) \<le> brk m" by (rule base_list_length [OF bl dist al])
  have data_ne: "data \<noteq> brk m" using dat fresh by auto
  show ?thesis
  proof (cases slist)
    case None
    with bl have "pre = []" "post = []" by auto
    with None dat data_ne fresh show ?thesis
      by (simp add: g_slist_insert_before_def alloc_def first_node_def)
  next
    case (Some first)
    show ?thesis
    proof (cases "pre = []")
      case True
      from insert_before_walk_char [OF bl dist len, of None] True
      have walk: "insert_before_walk (brk m) (heap m) slist None (first_node post) = Inr None"
        by simp
      let ?h = "(heap m)(brk m \<mapsto> GSList data slist)"
      from True bl have bp: "base_list (heap m) slist post" by simp
      have "base_list ?h slist post"
      proof (rule base_list_frame [OF bp])
        show "\<forall>a\<in>set (map fst post). ?h a = heap m a"
        proof
          fix a assume "a \<in> set (map fst post)"
          from base_list_nodes_live [OF bp this] fresh have "a \<noteq> brk m" by auto
          then show "?h a = heap m a" by simp
        qed
        show "\<forall>d q l. heap m d = Some (ObtLinkBaseEntry q l) \<longrightarrow> ?h d = heap m d"
          using fresh by auto
      qed
      with Some True walk dat data_ne fresh show ?thesis
        by (auto simp: g_slist_insert_before_def alloc_def)
    next
      case False
      from insert_before_walk_char [OF bl dist len, of None] False
      have walk: "insert_before_walk (brk m) (heap m) slist None (first_node post) =
                    Inr (Some (fst (last pre)))" by simp
      have "fst (last pre) \<in> set (map fst (pre @ post))" using False by simp
      from base_list_nodes_live [OF bl this] obtain dp nxp
        where lp: "heap m (fst (last pre)) = Some (GSList dp nxp)" by blast
      define h' where
        "h' = (heap m)(brk m \<mapsto> GSList data nxp, fst (last pre) \<mapsto> GSList dp (Some (brk m)))"
      have res: "g_slist_insert_before m slist (first_node post) data =
                   Inr (m\<lparr>heap := h', brk := Suc (brk m)\<rparr>, first)"
        using Some walk lp by (simp add: g_slist_insert_before_def alloc_def read_node_def h'_def)
      have bl': "base_list h' slist (pre @ (brk m, q, l) # post)"
        by (rule insert_after_last [OF bl False dist fresh lp dat h'_def])
      have lp_ne: "fst (last pre) \<noteq> brk m" using lp fresh by auto
      have frame: "\<forall>a. a \<noteq> brk m \<longrightarrow> a \<notin> set (map fst (pre @ post)) \<longrightarrow> h' a = heap m a"
        using False by (auto simp: h'_def)
      have none: "\<forall>a. h' a = None \<longrightarrow> a \<noteq> brk m \<longrightarrow> heap m a = None"
        by (auto simp: h'_def split: if_splits)
      have entries: "\<forall>d q l. heap m d = Some (ObtLinkBaseEntry q l) \<longrightarrow> h' d = heap m d"
        using lp fresh by (auto simp: h'_def)
      from res bl' frame none entries Some show ?thesis by simp
    qed
  qed
qed

subsection \<open>The add procedure keeps the shape of both indexes\<close>

text \<open>
  Every run of the handler that returns, and so every memory the database can reach,
  keeps the sequences ascending and apart, and the category index in step with them.
  The runs that return are those that add an entry or change nothing.
\<close>

lemma read_self_Inr: "read_self h a = Inr lb \<Longrightarrow> h a = Some (ObtLinkBaseObj lb)"
  by (auto simp: read_self_def split: option.splits obj.splits)

lemma store_self_same: "read_self (heap m) self = Inr lb \<Longrightarrow> store_self m self lb = m"
  by (simp add: store_self_def read_self_Inr fun_upd_idem)

lemma nodes_below_brk:
  assumes "allocated m" and "base_list (heap m) p es" and "a \<in> set (map fst es)"
  shows "a < brk m"
proof -
  from base_list_nodes_live [OF assms(2,3)] have "heap m a \<noteq> None" by auto
  with assms(1) show ?thesis
    unfolding allocated_def by (metis not_le_imp_less)
qed

lemma sorted_insert:
  "sorted_wrt (<) (map f es) \<Longrightarrow>
   (case dropWhile (\<lambda>e. f e < p) es of [] \<Rightarrow> True | e # r \<Rightarrow> f e \<noteq> p) \<Longrightarrow> f x = (p::int) \<Longrightarrow>
   sorted_wrt (<) (map f (takeWhile (\<lambda>e. f e < p) es @ x # dropWhile (\<lambda>e. f e < p) es))"
proof (induction es)
  case Nil
  then show ?case by simp
next
  case (Cons e es)
  show ?case
  proof (cases "f e < p")
    case True
    with Cons have ih: "sorted_wrt (<) (map f (takeWhile (\<lambda>e. f e < p) es @ x #
                          dropWhile (\<lambda>e. f e < p) es))" by simp
    have "\<forall>y \<in> set (takeWhile (\<lambda>e. f e < p) es @ x # dropWhile (\<lambda>e. f e < p) es). f e < f y"
    proof
      fix y assume "y \<in> set (takeWhile (\<lambda>e. f e < p) es @ x # dropWhile (\<lambda>e. f e < p) es)"
      then have "y = x \<or> y \<in> set es"
        by (auto dest: set_takeWhileD set_dropWhileD)
      with Cons.prems(1,3) True show "f e < f y" by auto
    qed
    with True ih show ?thesis by auto
  next
    case False
    with Cons.prems(2) have "f e \<noteq> p" by simp
    with False have "p < f e" by simp
    with False Cons.prems(1,3) show ?thesis by fastforce
  qed
qed

lemma base_category_add_all [simp]: "base (category_add_all lb cats link) = base lb"
  by (induction lb cats link rule: category_add_all.induct)
     (simp_all add: category_add_def split: option.splits)

lemma base_list_store_self:
  assumes "base_list h p es" and "h self = Some (ObtLinkBaseObj old)"
  shows "base_list (h(self \<mapsto> ObtLinkBaseObj lb')) p es"
proof (rule base_list_frame [OF assms(1)])
  show "\<forall>a\<in>set (map fst es). (h(self \<mapsto> ObtLinkBaseObj lb')) a = h a"
  proof
    fix a assume "a \<in> set (map fst es)"
    from base_list_nodes_live [OF assms(1) this] assms(2) have "a \<noteq> self" by auto
    then show "(h(self \<mapsto> ObtLinkBaseObj lb')) a = h a" by simp
  qed
  show "\<forall>d q l. h d = Some (ObtLinkBaseEntry q l) \<longrightarrow> (h(self \<mapsto> ObtLinkBaseObj lb')) d = h d"
    using assms(2) by auto
qed

lemma sequences_ok_store_self:
  assumes "sequences_ok m lb A" and "read_self (heap m) self = Inr lb0" and "base lb' = base lb"
  shows "sequences_ok (store_self m self lb') lb' A"
proof -
  from assms(2) have s: "heap m self = Some (ObtLinkBaseObj lb0)" by (rule read_self_Inr)
  have "allocated (store_self m self lb')"
    using assms(1) s by (auto simp: sequences_ok_def allocated_def store_self_def)
  moreover have "\<forall>i. base_list (heap (store_self m self lb')) (g_hash_table_lookup (base lb') i) (A i)"
    using assms(1,3) base_list_store_self [where h = "heap m" and self = self and old = lb0, OF _ s]
    by (simp add: sequences_ok_def store_self_def)
  ultimately show ?thesis
    using assms(1) by (simp add: sequences_ok_def)
qed


lemma category_members_add:
  "category_members (category_add lb cat link) tag =
     (if tag = cat then link # category_members lb tag else category_members lb tag)"
  by (simp add: category_add_def category_members_def split: option.splits)

lemma category_members_add_all:
  "set (category_members (category_add_all lb cats link) tag) =
     set (category_members lb tag) \<union> (if tag \<in> set cats then {link} else {})"
  by (induction lb cats link rule: category_add_all.induct)
     (auto simp: category_members_add)

lemma category_members_base [simp]:
  "category_members (lb\<lparr>base := t\<rparr>) tag = category_members lb tag"
  by (simp add: category_members_def)

lemma categories_ok_store_self:
  assumes "categories_ok m lb A" and "read_self (heap m) self = Inr lb0"
    and "categories lb' = categories lb"
  shows "categories_ok (store_self m self lb') lb' A"
proof -
  from assms(2) have s: "heap m self = Some (ObtLinkBaseObj lb0)" by (rule read_self_Inr)
  have "\<And>l r k. (heap (store_self m self lb') l = Some (ObtLinkObj r k)) =
                  (heap m l = Some (ObtLinkObj r k))"
    using s by (auto simp: store_self_def)
  with assms(1,3) show ?thesis
    by (simp add: categories_ok_def category_members_def)
qed

lemma records_ok_store_self:
  assumes "records_ok m A" and "read_self (heap m) self = Inr lb0"
  shows "records_ok (store_self m self lb') A"
proof -
  from assms(2) have s: "heap m self = Some (ObtLinkBaseObj lb0)" by (rule read_self_Inr)
  have "\<And>l r k. (heap (store_self m self lb') l = Some (ObtLinkObj r k)) =
                  (heap m l = Some (ObtLinkObj r k))"
    using s by (auto simp: store_self_def)
  with assms(1) show ?thesis
    by (simp add: records_ok_def)
qed

lemma add_link_keeps_index:
  assumes ok: "sequences_ok m lb A"
    and cok: "categories_ok m lb A"
    and rok: "records_ok m A"
    and self: "read_self (heap m) self = Inr lb"
    and it: "it = first_node (dropWhile (\<lambda>e. fst (snd e) < p) (A ident))"
    and ne: "case dropWhile (\<lambda>e. fst (snd e) < p) (A ident) of
               [] \<Rightarrow> True | e # r \<Rightarrow> fst (snd e) \<noteq> p"
    and add: "add_link c m lb ident (g_hash_table_lookup (base lb) ident) it (Some p) path =
                Inr (m', lb')"
  shows "\<exists>A'. sequences_ok (store_self m' self lb') lb' A' \<and>
              categories_ok (store_self m' self lb') lb' A' \<and>
              records_ok (store_self m' self lb') A'"
proof (cases "obt_link_from_ddfile c path (paths lb) (language lb) (country lb) (modifier lb)")
  case None
  with add have "m' = m" "lb' = lb" by (simp_all add: add_link_unfold)
  with ok cok rok self show ?thesis by (auto simp: store_self_same)
next
  case (Some k)
  define b where "b = brk m"
  from ok have al: "allocated m" by (simp add: sequences_ok_def)
  then have fresh: "\<forall>a. b \<le> a \<longrightarrow> heap m a = None" by (simp add: allocated_def b_def)
  from self have hs: "heap m self = Some (ObtLinkBaseObj lb)" by (rule read_self_Inr)
  show ?thesis
  proof (cases "obt_link_display c k (environments lb)")
    case False
    with Some add have m': "m' = m\<lparr>heap := ((heap m)(b \<mapsto> ObtLinkObj 1 k))(b := None), brk := Suc b\<rparr>"
      and lb': "lb' = lb"
      by (auto simp: add_link_unfold alloc_def obt_link_unref_def b_def Let_def)
    have "((heap m)(b \<mapsto> ObtLinkObj 1 k))(b := None) = heap m"
      using fresh by (auto simp: fun_eq_iff)
    with m' have m'': "m' = m\<lparr>brk := Suc b\<rparr>" by simp
    have "sequences_ok m' lb A"
      using ok fresh unfolding m'' by (auto simp: sequences_ok_def allocated_def b_def)
    moreover have "categories_ok m' lb A"
      using cok unfolding m'' by (simp add: categories_ok_def)
    moreover have "records_ok m' A"
      using rok unfolding m'' by (simp add: records_ok_def)
    moreover have "read_self (heap m') self = Inr lb" using self m'' by simp
    ultimately show ?thesis
      using lb' by (auto simp: store_self_same)
  next
    case True
    define pre where "pre = takeWhile (\<lambda>e. fst (snd e) < p) (A ident)"
    define post where "post = dropWhile (\<lambda>e. fst (snd e) < p) (A ident)"
    have split: "A ident = pre @ post" by (simp add: pre_def post_def)
    define m3 where
      "m3 = notify lb OBT_LINKBASE_ADDED b
              (m\<lparr>heap := (heap m)(b \<mapsto> ObtLinkObj 1 k, Suc b \<mapsto> ObtLinkBaseEntry p b),
                 brk := Suc (Suc b)\<rparr>)"
    have h3: "heap m3 = (heap m)(b \<mapsto> ObtLinkObj 1 k, Suc b \<mapsto> ObtLinkBaseEntry p b)"
      and b3: "brk m3 = Suc (Suc b)"
      by (simp_all add: m3_def notify_def split: option.splits)
    from add Some True obtain head where
      ins: "g_slist_insert_before m3 (g_hash_table_lookup (base lb) ident) it (Suc b) =
              Inr (m', head)"
      and lb': "lb' = (if link_type k = OBT_LINK_TYPE_APPLICATION
                       then category_add_all
                              (lb\<lparr>base := g_hash_table_insert (base lb) ident head\<rparr>)
                              (app_categories k) b
                       else lb\<lparr>base := g_hash_table_insert (base lb) ident head\<rparr>)"
      by (auto simp: add_link_unfold alloc_def Let_def b_def m3_def split: sum.splits)
    have base': "base lb' = g_hash_table_insert (base lb) ident head"
      using lb' by simp
    have al3: "allocated m3"
      using fresh by (auto simp: allocated_def h3 b3)
    have below: "\<And>i a. a \<in> set (map fst (A i)) \<Longrightarrow> a < b"
    proof -
      fix i a assume a: "a \<in> set (map fst (A i))"
      from ok have "base_list (heap m) (g_hash_table_lookup (base lb) i) (A i)"
        by (simp add: sequences_ok_def)
      from nodes_below_brk [OF al this a] show "a < b" by (simp add: b_def)
    qed
    have lists3: "\<And>i. base_list (heap m3) (g_hash_table_lookup (base lb) i) (A i)"
    proof -
      fix i
      from ok have bl: "base_list (heap m) (g_hash_table_lookup (base lb) i) (A i)"
        by (simp add: sequences_ok_def)
      show "base_list (heap m3) (g_hash_table_lookup (base lb) i) (A i)"
      proof (rule base_list_frame [OF bl])
        show "\<forall>a\<in>set (map fst (A i)). heap m3 a = heap m a"
        proof
          fix a assume "a \<in> set (map fst (A i))"
          from below [OF this] have "a \<noteq> b" "a \<noteq> Suc b" by simp_all
          then show "heap m3 a = heap m a" by (simp add: h3)
        qed
        show "\<forall>d q l. heap m d = Some (ObtLinkBaseEntry q l) \<longrightarrow> heap m3 d = heap m d"
          using fresh by (auto simp: h3)
      qed
    qed
    from ok have dist: "distinct (map fst (pre @ post))"
      by (simp add: sequences_ok_def split [symmetric])
    have dat: "heap m3 (Suc b) = Some (ObtLinkBaseEntry p b)" by (simp add: h3)
    from g_slist_insert_before_effect [OF al3 lists3 [of ident, unfolded split] dist dat]
      ins it b3 post_def
    have b4: "brk m' = Suc (Suc (Suc b))"
      and bl4: "base_list (heap m') (Some head) (pre @ (Suc (Suc b), p, b) # post)"
      and fr4: "\<forall>a. a \<noteq> Suc (Suc b) \<longrightarrow> a \<notin> set (map fst (pre @ post)) \<longrightarrow>
                  heap m' a = heap m3 a"
      and en4: "\<forall>d q l. heap m3 d = Some (ObtLinkBaseEntry q l) \<longrightarrow> heap m' d = heap m3 d"
      by auto
    define A' where "A' = A(ident := pre @ (Suc (Suc b), p, b) # post)"
    have self_b: "self < b"
      using hs fresh by (metis not_le_imp_less option.distinct(1))
    have self_node: "\<And>i. self \<notin> set (map fst (A i))"
    proof
      fix i assume "self \<in> set (map fst (A i))"
      from base_list_nodes_live [OF _ this, of "heap m" "g_hash_table_lookup (base lb) i"] ok hs
      show False by (auto simp: sequences_ok_def)
    qed
    have hs4: "heap m' self = Some (ObtLinkBaseObj lb)"
      using fr4 self_b self_node [of ident] hs by (simp add: split h3)
    let ?mf = "store_self m' self lb'"
    have "allocated ?mf"
    proof -
      have "\<forall>a. Suc (Suc (Suc b)) \<le> a \<longrightarrow> heap m' a = None"
      proof (intro allI impI)
        fix a assume a: "Suc (Suc (Suc b)) \<le> a"
        then have "a \<notin> set (map fst (pre @ post))"
          using below [of a ident] by (auto simp: split [symmetric])
        with fr4 a have "heap m' a = heap m3 a" by auto
        with a fresh show "heap m' a = None" by (simp add: h3)
      qed
      then show ?thesis
        using self_b by (auto simp: allocated_def store_self_def b4)
    qed
    moreover have "\<forall>i. base_list (heap ?mf) (g_hash_table_lookup (base lb') i) (A' i) \<and>
                     sorted_wrt (<) (map (\<lambda>e. fst (snd e)) (A' i)) \<and> distinct (map fst (A' i))"
    proof
      fix i
      show "base_list (heap ?mf) (g_hash_table_lookup (base lb') i) (A' i) \<and>
            sorted_wrt (<) (map (\<lambda>e. fst (snd e)) (A' i)) \<and> distinct (map fst (A' i))"
      proof (cases "i = ident")
        case True
        have "base_list (heap ?mf) (Some head) (pre @ (Suc (Suc b), p, b) # post)"
          unfolding store_self_def using base_list_store_self [OF bl4 hs4] by simp
        moreover have "sorted_wrt (<) (map (\<lambda>e. fst (snd e)) (pre @ (Suc (Suc b), p, b) # post))"
          unfolding pre_def post_def
          by (rule sorted_insert) (use ok ne in \<open>simp_all add: sequences_ok_def\<close>)
        moreover have "distinct (map fst (pre @ (Suc (Suc b), p, b) # post))"
        proof -
          have "Suc (Suc b) \<notin> set (map fst (A ident))"
            using below [of "Suc (Suc b)" ident] by auto
          then have "Suc (Suc b) \<notin> set (map fst (pre @ post))"
            unfolding split .
          with dist show ?thesis by auto
        qed
        ultimately show ?thesis
          using True base' by (simp add: A'_def)
      next
        case False
        have "base_list (heap m') (g_hash_table_lookup (base lb) i) (A i)"
        proof (rule base_list_frame [OF lists3 [of i]])
          show "\<forall>a\<in>set (map fst (A i)). heap m' a = heap m3 a"
          proof
            fix a assume a: "a \<in> set (map fst (A i))"
            from ok False a have "a \<notin> set (map fst (A ident))"
              unfolding sequences_ok_def by blast
            moreover from below [OF a] have "a \<noteq> Suc (Suc b)" by simp
            ultimately show "heap m' a = heap m3 a" using fr4 by (simp add: split)
          qed
          show "\<forall>d q l. heap m3 d = Some (ObtLinkBaseEntry q l) \<longrightarrow> heap m' d = heap m3 d"
            by (rule en4)
        qed
        from base_list_store_self [OF this hs4]
        have "base_list (heap ?mf) (g_hash_table_lookup (base lb) i) (A i)"
          by (simp add: store_self_def)
        with False base' ok show ?thesis
          by (simp add: A'_def sequences_ok_def)
      qed
    qed
    moreover have "\<forall>i j. i \<noteq> j \<longrightarrow> set (map fst (A' i)) \<inter> set (map fst (A' j)) = {}"
    proof (intro allI impI)
      fix i j :: string assume ij: "i \<noteq> j"
      from ok ij have d: "set (map fst (A i)) \<inter> set (map fst (A j)) = {}"
        unfolding sequences_ok_def by blast
      have n: "\<And>i. Suc (Suc b) \<notin> set (map fst (A i))" using below by fastforce
      have "set (map fst (pre @ (Suc (Suc b), p, b) # post)) =
              insert (Suc (Suc b)) (set (map fst (pre @ post)))" by auto
      then have A'_ident:
        "set (map fst (A' ident)) = insert (Suc (Suc b)) (set (map fst (A ident)))"
        unfolding split by (simp add: A'_def)
      show "set (map fst (A' i)) \<inter> set (map fst (A' j)) = {}"
      proof (cases "i = ident")
        case True
        with ij have "A' j = A j" by (simp add: A'_def)
        with True A'_ident d n [of j] show ?thesis by auto
      next
        case False
        then have i: "A' i = A i" by (simp add: A'_def)
        show ?thesis
        proof (cases "j = ident")
          case True
          with i A'_ident d n [of i] show ?thesis by auto
        next
          case False
          with i d show ?thesis by (simp add: A'_def)
        qed
      qed
    qed
    ultimately have seq: "sequences_ok ?mf lb' A'" by (simp add: sequences_ok_def)
    have members: "\<And>tag. set (category_members lb' tag) =
                     set (category_members lb tag) \<union>
                     (if link_type k = OBT_LINK_TYPE_APPLICATION \<and> tag \<in> set (app_categories k)
                      then {b} else {})"
      unfolding lb' by (simp add: category_members_add_all)
    have new_node: "\<exists>d nx. heap m' (Suc (Suc b)) = Some (GSList d nx)"
      by (rule base_list_nodes_live [OF bl4]) simp
    have old_nodes': "\<And>a. a \<in> set (map fst (pre @ post)) \<Longrightarrow> \<exists>d nx. heap m' a = Some (GSList d nx)"
      by (rule base_list_nodes_live [OF bl4]) auto
    from ok have "base_list (heap m) (g_hash_table_lookup (base lb) ident) (A ident)"
      by (simp add: sequences_ok_def)
    then have bl0: "base_list (heap m) (g_hash_table_lookup (base lb) ident) (pre @ post)"
      unfolding split .
    have old_nodes: "\<And>a. a \<in> set (map fst (pre @ post)) \<Longrightarrow> \<exists>d nx. heap m a = Some (GSList d nx)"
      by (rule base_list_nodes_live [OF bl0])
    have records: "\<And>l r k'. (heap ?mf l = Some (ObtLinkObj r k')) =
                     (if l = b then r = 1 \<and> k' = k else heap m l = Some (ObtLinkObj r k'))"
    proof -
      fix l r k'
      show "(heap ?mf l = Some (ObtLinkObj r k')) =
            (if l = b then r = 1 \<and> k' = k else heap m l = Some (ObtLinkObj r k'))"
      proof (cases "l = self")
        case True
        with hs self_b show ?thesis by (auto simp: store_self_def)
      next
        case not_self: False
        then have f: "heap ?mf l = heap m' l" by (simp add: store_self_def)
        show ?thesis
        proof (cases "l = Suc (Suc b)")
          case True
          with new_node fresh f show ?thesis by auto
        next
          case not_new: False
          show ?thesis
          proof (cases "l \<in> set (map fst (pre @ post))")
            case True
            from old_nodes' [OF True] old_nodes [OF True] below [of l ident] True f
            show ?thesis by (auto simp: split)
          next
            case False
            with fr4 not_new have "heap m' l = heap m3 l" by simp
            with f fresh show ?thesis by (auto simp: h3)
          qed
        qed
      qed
    qed
    have entries: "\<And>i. set (A' i) = (if i = ident then insert (Suc (Suc b), p, b) (set (A i))
                                        else set (A i))"
      by (auto simp: A'_def split)
    have not_yet: "\<And>tag. b \<notin> set (category_members lb tag)"
      using cok fresh by (auto simp: categories_ok_def)
    have "records_ok ?mf A'"
      unfolding records_ok_def
    proof (intro allI ballI)
      fix i e assume e: "e \<in> set (A' i)"
      show "\<exists>r k'. heap ?mf (snd (snd e)) = Some (ObtLinkObj r k')"
      proof (cases "snd (snd e) = b")
        case True
        then show ?thesis by (simp add: records)
      next
        case False
        with e have "e \<in> set (A i)" by (auto simp: entries split: if_splits)
        with rok obtain r k' where "heap m (snd (snd e)) = Some (ObtLinkObj r k')"
          unfolding records_ok_def by blast
        with False show ?thesis by (simp add: records)
      qed
    qed
    moreover have "categories_ok ?mf lb' A'"
      unfolding categories_ok_def
    proof (intro allI)
      fix tag l
      show "(l \<in> set (category_members lb' tag)) =
            (\<exists>i e r k'. e \<in> set (A' i) \<and> snd (snd e) = l \<and> heap ?mf l = Some (ObtLinkObj r k') \<and>
               link_type k' = OBT_LINK_TYPE_APPLICATION \<and> tag \<in> set (app_categories k'))"
      proof (cases "l = b")
        case True
        have "(\<exists>i e r k'. e \<in> set (A' i) \<and> snd (snd e) = l \<and>
                 heap ?mf l = Some (ObtLinkObj r k') \<and>
                 link_type k' = OBT_LINK_TYPE_APPLICATION \<and> tag \<in> set (app_categories k')) =
              (link_type k = OBT_LINK_TYPE_APPLICATION \<and> tag \<in> set (app_categories k))"
        proof
          assume "\<exists>i e r k'. e \<in> set (A' i) \<and> snd (snd e) = l \<and>
                 heap ?mf l = Some (ObtLinkObj r k') \<and>
                 link_type k' = OBT_LINK_TYPE_APPLICATION \<and> tag \<in> set (app_categories k')"
          then show "link_type k = OBT_LINK_TYPE_APPLICATION \<and> tag \<in> set (app_categories k)"
            using True by (auto simp: records)
        next
          assume "link_type k = OBT_LINK_TYPE_APPLICATION \<and> tag \<in> set (app_categories k)"
          moreover have "(Suc (Suc b), p, b) \<in> set (A' ident)" by (simp add: entries)
          moreover have "heap ?mf b = Some (ObtLinkObj 1 k)" by (simp add: records)
          ultimately show "\<exists>i e r k'. e \<in> set (A' i) \<and> snd (snd e) = l \<and>
                 heap ?mf l = Some (ObtLinkObj r k') \<and>
                 link_type k' = OBT_LINK_TYPE_APPLICATION \<and> tag \<in> set (app_categories k')"
            using True by fastforce
        qed
        with True not_yet [of tag] show ?thesis by (simp add: members)
      next
        case False
        have "(\<exists>i e r k'. e \<in> set (A' i) \<and> snd (snd e) = l \<and>
                 heap ?mf l = Some (ObtLinkObj r k') \<and>
                 link_type k' = OBT_LINK_TYPE_APPLICATION \<and> tag \<in> set (app_categories k')) =
              (\<exists>i e r k'. e \<in> set (A i) \<and> snd (snd e) = l \<and>
                 heap m l = Some (ObtLinkObj r k') \<and>
                 link_type k' = OBT_LINK_TYPE_APPLICATION \<and> tag \<in> set (app_categories k'))"
        proof -
          have "\<And>i x y. ((x, y, l) \<in> set (A' i)) = ((x, y, l) \<in> set (A i))"
            using False by (auto simp: entries)
          then show ?thesis
            using False by (simp add: records)
        qed
        with False cok show ?thesis by (auto simp: members categories_ok_def)
      qed
    qed
    ultimately show ?thesis using seq by blast
  qed
qed

lemma base_list_member:
  "base_list h p es \<Longrightarrow> e \<in> set es \<Longrightarrow>
   \<exists>d nx. h (fst e) = Some (GSList d nx) \<and>
           h d = Some (ObtLinkBaseEntry (fst (snd e)) (snd (snd e)))"
proof (induction es arbitrary: p)
  case Nil
  then show ?case by simp
next
  case (Cons x es)
  then show ?case
    by (auto split: option.splits obj.splits)
qed

lemma base_list_Cons:
  "base_list h p (x # es) \<Longrightarrow>
   \<exists>d nx. p = Some (fst x) \<and> h (fst x) = Some (GSList d nx) \<and>
           h d = Some (ObtLinkBaseEntry (fst (snd x)) (snd (snd x))) \<and> base_list h nx es"
  by (auto split: option.splits obj.splits)

lemma base_list_unique:
  "base_list h p es \<Longrightarrow> base_list h p es' \<Longrightarrow> es = es'"
proof (induction es arbitrary: p es')
  case Nil
  then show ?case by simp
next
  case (Cons x es)
  from base_list_Cons [OF Cons.prems(1)] obtain d nx where
    x: "p = Some (fst x)" "h (fst x) = Some (GSList d nx)"
       "h d = Some (ObtLinkBaseEntry (fst (snd x)) (snd (snd x)))" "base_list h nx es"
    by blast
  show ?case
  proof (cases es')
    case Nil
    with Cons.prems(2) x(1) show ?thesis by simp
  next
    case (Cons y ys)
    from base_list_Cons [OF Cons.prems(2) [unfolded Cons]] obtain d' nx' where
      y: "p = Some (fst y)" "h (fst y) = Some (GSList d' nx')"
         "h d' = Some (ObtLinkBaseEntry (fst (snd y)) (snd (snd y)))" "base_list h nx' ys"
      by blast
    from x(1) y(1) have fst: "fst x = fst y" by simp
    with x(2) y(2) have same: "d' = d" "nx' = nx" by simp_all
    with x(3) y(3) have snd: "fst (snd x) = fst (snd y)" "snd (snd x) = snd (snd y)"
      by simp_all
    from Cons.IH [OF x(4) y(4) [unfolded same]] have "es = ys" .
    with fst snd Cons show ?thesis by (simp add: prod_eq_iff)
  qed
qed

lemma update_keeps_shape:
  assumes self: "read_self (heap m) self = Inr lb"
    and ok: "sequences_ok m lb A"
    and cok: "categories_ok m lb A"
    and rok: "records_ok m A"
    and upd: "update c m ev self = Inr m'"
  shows "\<exists>lb' A'. read_self (heap m') self = Inr lb' \<and> sequences_ok m' lb' A' \<and>
           categories_ok m' lb' A' \<and> records_ok m' A'"
proof (cases "g_str_has_suffix (sub_path ev) ''.desktop''")
  case False
  with upd have "m' = m" by (simp add: update_unfold)
  with self ok cok rok show ?thesis by auto
next
  case suffix: True
  define ident where "ident = obt_link_id_from_ddfile c (sub_path ev)"
  define list where "list = g_hash_table_lookup (base lb) ident"
  show ?thesis
  proof (cases "notify_type ev")
    case OBT_WATCH_SELF_REMOVED
    with suffix self upd have "m' = m" by (simp add: update_unfold Let_def)
    with self ok cok rok show ?thesis by auto
  next
    case OBT_WATCH_REMOVED
    with suffix self upd have "m' = m"
      by (auto simp: update_unfold Let_def remove_found_never_returns
               split: sum.splits option.splits prod.splits)
    with self ok cok rok show ?thesis by auto
  next
    case OBT_WATCH_MODIFIED
    with suffix self upd have "m' = m"
      by (auto simp: update_unfold Let_def remove_found_never_returns
               split: sum.splits option.splits prod.splits)
    with self ok cok rok show ?thesis by auto
  next
    case OBT_WATCH_ADDED
    from ok have al: "allocated m"
      and bl: "base_list (heap m) list (A ident)"
      and dist: "distinct (map fst (A ident))"
      by (simp_all add: sequences_ok_def list_def)
    from OBT_WATCH_ADDED suffix self upd obtain p where
      pri: "g_hash_table_lookup (path_to_priority lb) (base_path ev) = Some p"
      by (auto simp: update_unfold Let_def split: option.splits)
    define post where "post = dropWhile (\<lambda>e. fst (snd e) < p) (A ident)"
    have found: "find_base_entry_priority (brk m) (heap m) list p = Inr (first_node post)"
      unfolding post_def
      by (rule find_base_entry_priority_char [OF bl base_list_length [OF bl dist al]])
    show ?thesis
    proof (cases post)
      case Nil
      with found OBT_WATCH_ADDED suffix self upd pri obtain m2 lb2 where
        add: "add_link c m lb ident list None (Some p) (full_path ev) = Inr (m2, lb2)"
        and m': "m' = store_self m2 self lb2"
        by (auto simp: update_unfold Let_def first_node_def ident_def list_def
                 split: sum.splits)
      have "\<exists>A'. sequences_ok (store_self m2 self lb2) lb2 A' \<and>
                  categories_ok (store_self m2 self lb2) lb2 A' \<and>
                  records_ok (store_self m2 self lb2) A'"
      proof (rule add_link_keeps_index [OF ok cok rok self _ _ add [unfolded list_def]])
        show "None = first_node (dropWhile (\<lambda>e. fst (snd e) < p) (A ident))"
          unfolding post_def [symmetric] Nil by (simp add: first_node_def)
        show "case dropWhile (\<lambda>e. fst (snd e) < p) (A ident) of
                [] \<Rightarrow> True | e # r \<Rightarrow> fst (snd e) \<noteq> p"
          unfolding post_def [symmetric] Nil by simp
      qed
      with m' show ?thesis by auto
    next
      case (Cons e r)
      then have "e \<in> set (A ident)"
        unfolding post_def by (metis list.set_intros(1) set_dropWhileD)
      from base_list_member [OF bl this] obtain d nx where
        node: "heap m (fst e) = Some (GSList d nx)"
        and entry: "heap m d = Some (ObtLinkBaseEntry (fst (snd e)) (snd (snd e)))" by blast
      show ?thesis
      proof (cases "fst (snd e) = p")
        case True
        with found Cons node entry OBT_WATCH_ADDED suffix self upd pri have "m' = m"
          by (simp add: update_unfold Let_def first_node_def ident_def list_def
                        read_node_def read_entry_def case_prod_beta)
        with self ok cok rok show ?thesis by auto
      next
        case False
        with found Cons node entry OBT_WATCH_ADDED suffix self upd pri obtain m2 lb2 where
          add: "add_link c m lb ident list (Some (fst e)) (Some p) (full_path ev) =
                  Inr (m2, lb2)"
          and m': "m' = store_self m2 self lb2"
          by (auto simp: update_unfold Let_def first_node_def ident_def list_def
                         read_node_def read_entry_def case_prod_beta
                   split: sum.splits)
        have "\<exists>A'. sequences_ok (store_self m2 self lb2) lb2 A' \<and>
                    categories_ok (store_self m2 self lb2) lb2 A' \<and>
                  records_ok (store_self m2 self lb2) A'"
        proof (rule add_link_keeps_index [OF ok cok rok self _ _ add [unfolded list_def]])
          show "Some (fst e) = first_node (dropWhile (\<lambda>e. fst (snd e) < p) (A ident))"
            unfolding post_def [symmetric] Cons by (simp add: first_node_def)
          show "case dropWhile (\<lambda>e. fst (snd e) < p) (A ident) of
                  [] \<Rightarrow> True | e # r \<Rightarrow> fst (snd e) \<noteq> p"
            unfolding post_def [symmetric] Cons using False by simp
        qed
        with m' show ?thesis by auto
      qed
    qed
  qed
qed

lemma update_keeps_index: "index_ok m self \<Longrightarrow> update c m ev self = Inr m' \<Longrightarrow> index_ok m' self"
  unfolding index_ok_def using update_keeps_shape by blast

lemma store_self_keeps_index:
  assumes "index_ok m self" and "read_self (heap m) self = Inr lb" and "base lb' = base lb"
    and "categories lb' = categories lb"
  shows "index_ok (store_self m self lb') self"
proof -
  from assms(1,2) obtain A where
    "sequences_ok m lb A" "categories_ok m lb A" "records_ok m A"
    by (auto simp: index_ok_def)
  from sequences_ok_store_self [OF this(1) assms(2,3)]
    categories_ok_store_self [OF this(2) assms(2,4)]
    records_ok_store_self [OF this(3) assms(2)]
  show ?thesis
    by (auto simp: index_ok_def read_self_def store_self_def)
qed

lemma replay_keeps_index:
  "index_ok m self \<Longrightarrow> replay c m self bp fs = Inr m' \<Longrightarrow> index_ok m' self"
proof (induction fs arbitrary: m)
  case Nil
  then show ?case by simp
next
  case (Cons f fs)
  from Cons.prems(2) obtain m1 where
    u: "update c m (notification bp f OBT_WATCH_ADDED) self = Inr m1"
    and r: "replay c m1 self bp fs = Inr m'"
    by (auto split: sum.splits)
  from Cons.IH [OF update_keeps_index [OF Cons.prems(1) u] r] show ?case .
qed

lemma register_dirs_keeps_index:
  "index_ok m self \<Longrightarrow> register_dirs c m self priority dirs = Inr m' \<Longrightarrow> index_ok m' self"
proof (induction dirs arbitrary: m priority)
  case Nil
  then show ?case by simp
next
  case (Cons dir dirs)
  from Cons.prems(1) obtain lb where self: "read_self (heap m) self = Inr lb"
    by (auto simp: index_ok_def)
  show ?case
  proof (cases "g_hash_table_lookup (path_to_priority lb) dir = None")
    case False
    with Cons.prems self have "register_dirs c m self priority dirs = Inr m'" by simp
    from Cons.IH [OF Cons.prems(1) this] show ?thesis .
  next
    case True
    let ?bp = "g_build_filename dir ''applications''"
    let ?lb1 = "lb\<lparr>path_to_priority := g_hash_table_insert (path_to_priority lb) ?bp priority\<rparr>"
    let ?m1 = "store_self m self ?lb1"
    let ?lb2 = "?lb1\<lparr>watch := watch ?lb1 @ [?bp]\<rparr>"
    from True Cons.prems(2) self obtain m2 where
      w: "replay c (store_self ?m1 self ?lb2) self ?bp (dir_contents c ?bp) = Inr m2"
      and r: "register_dirs c m2 self (gint (priority + 1)) dirs = Inr m'"
      by (auto simp: Let_def obt_watch_add_def read_self_def store_self_def split: sum.splits)
    have i1: "index_ok ?m1 self"
      by (rule store_self_keeps_index [OF Cons.prems(1) self]) simp_all
    have "read_self (heap ?m1) self = Inr ?lb1" by (simp add: read_self_def store_self_def)
    from store_self_keeps_index [OF i1 this, of ?lb2]
    have "index_ok (store_self ?m1 self ?lb2) self" by simp
    from Cons.IH [OF replay_keeps_index [OF this w] r] show ?thesis .
  qed
qed

lemma obt_linkbase_new_index:
  assumes "allocated m" and "obt_linkbase_new c m dirs locale env = Inr (m', self)"
  shows "index_ok m' self"
proof -
  obtain lang ctry modf where pl: "parse_locale locale = (lang, ctry, modf)"
    by (cases "parse_locale locale") auto
  let ?lb = "\<lparr>ref = 0, environments = env, language = lang, country = ctry, modifier = modf,
              paths = dirs, watch = [], base = [], path_to_priority = [], categories = [],
              update_func = None, update_data = None\<rparr>"
  let ?m1 = "m\<lparr>heap := (heap m)(brk m \<mapsto> ObtLinkBaseObj ?lb), brk := Suc (brk m)\<rparr>"
  from assms(2) pl have s: "self = brk m" and r: "register_dirs c ?m1 self 0 dirs = Inr m'"
    by (auto simp: obt_linkbase_new_def alloc_def Let_def split: sum.splits)
  have "sequences_ok ?m1 ?lb (\<lambda>i. [])"
    using assms(1) by (auto simp: sequences_ok_def allocated_def g_hash_table_lookup_def)
  moreover have "categories_ok ?m1 ?lb (\<lambda>i. [])"
    by (simp add: categories_ok_def category_members_def g_hash_table_lookup_def)
  moreover have "records_ok ?m1 (\<lambda>i. [])"
    by (simp add: records_ok_def)
  moreover have "read_self (heap ?m1) self = Inr ?lb"
    using s by (simp add: read_self_def)
  ultimately have "index_ok ?m1 self" unfolding index_ok_def by blast
  from register_dirs_keeps_index [OF this r] show ?thesis .
qed

lemma reachable_index_ok: "reachable m self \<Longrightarrow> index_ok m self"
proof (induction rule: reachable.induct)
  case (constructed m c dirs loc env m' self)
  then show ?case by (rule obt_linkbase_new_index)
next
  case (handled m self c ev m')
  then show ?case by (auto intro: update_keeps_index)
next
  case (callback_set m self func data m')
  from callback_set.IH obtain lb where self: "read_self (heap m) self = Inr lb"
    by (auto simp: index_ok_def)
  with callback_set.hyps(2)
  have "m' = store_self m self (lb\<lparr>update_func := func, update_data := data\<rparr>)"
    by (simp add: obt_linkbase_set_update_func_def)
  with store_self_keeps_index [OF callback_set.IH self] show ?case by simp
next
  case (retained m self m')
  from retained.IH obtain lb where self: "read_self (heap m) self = Inr lb"
    by (auto simp: index_ok_def)
  with retained.hyps(2) have "m' = store_self m self (lb\<lparr>ref := gint (ref lb + 1)\<rparr>)"
    by (simp add: obt_linkbase_ref_def)
  with store_self_keeps_index [OF retained.IH self] show ?case by simp
qed

text \<open>
  Read without the table \<open>A\<close>: in every memory the database can reach, the list of
  each id ascends strictly by priority, and the members of each tag are the record
  pointers of the entries whose record is an application that declares the tag.
\<close>

lemma reachable_sequences_sorted:
  assumes "reachable m self" and "read_self (heap m) self = Inr lb"
    and "base_list (heap m) (g_hash_table_lookup (base lb) i) es"
  shows "sorted_wrt (<) (map (\<lambda>e. fst (snd e)) es) \<and> distinct (map fst es)"
proof -
  from reachable_index_ok [OF assms(1)] assms(2) obtain A where ok: "sequences_ok m lb A"
    by (auto simp: index_ok_def)
  then have "base_list (heap m) (g_hash_table_lookup (base lb) i) (A i)"
    by (simp add: sequences_ok_def)
  from base_list_unique [OF assms(3) this] ok show ?thesis
    by (simp add: sequences_ok_def)
qed

lemma reachable_categories_consistent:
  assumes "reachable m self" and "read_self (heap m) self = Inr lb"
  shows "\<exists>A. (\<forall>i. base_list (heap m) (g_hash_table_lookup (base lb) i) (A i)) \<and>
           (\<forall>tag l. (l \<in> set (category_members lb tag)) =
              (\<exists>i e r k. e \<in> set (A i) \<and> snd (snd e) = l \<and>
                 heap m l = Some (ObtLinkObj r k) \<and>
                 link_type k = OBT_LINK_TYPE_APPLICATION \<and> tag \<in> set (app_categories k)))"
proof -
  from reachable_index_ok [OF assms(1)] assms(2) obtain A
    where "sequences_ok m lb A" "categories_ok m lb A"
    by (auto simp: index_ok_def)
  then show ?thesis
    unfolding sequences_ok_def categories_ok_def by blast
qed

text \<open>
  The search of lines 91-100 on a sequence whose entries all point to records: when
  none of them was read from \<open>path\<close> it comes to the end and returns NULL.
\<close>

lemma find_base_entry_path_absent:
  "base_list h p0 es \<Longrightarrow>
   \<forall>e \<in> set es. \<exists>r k. h (snd (snd e)) = Some (ObtLinkObj r k) \<Longrightarrow>
   Some path \<notin> set (map (entry_path h) es) \<Longrightarrow> length es \<le> n \<Longrightarrow>
   find_base_entry_path n h p0 path = Inr None"
proof (induction es arbitrary: p0 n)
  case Nil
  then show ?case by simp
next
  case (Cons e es)
  from base_list_Cons [OF Cons.prems(1)] obtain d nx where
    p0: "p0 = Some (fst e)" and node: "h (fst e) = Some (GSList d nx)"
    and entry: "h d = Some (ObtLinkBaseEntry (fst (snd e)) (snd (snd e)))"
    and rest: "base_list h nx es" by blast
  from Cons.prems(2) obtain r k where rec: "h (snd (snd e)) = Some (ObtLinkObj r k)" by auto
  with Cons.prems(3) have other: "source_file k \<noteq> path"
    by (auto simp: entry_path_def read_link_def)
  from Cons.prems(4) obtain j where n: "n = Suc j" and j: "length es \<le> j"
    by (cases n) auto
  from Cons.prems(2) have live: "\<forall>e \<in> set es. \<exists>r k. h (snd (snd e)) = Some (ObtLinkObj r k)"
    by simp
  from Cons.prems(3) have absent: "Some path \<notin> set (map (entry_path h) es)" by simp
  from Cons.IH [OF rest live absent j] have "find_base_entry_path j h nx path = Inr None" .
  with p0 node entry rec other n show ?case
    by (simp add: read_node_def read_entry_def read_link_def case_prod_beta)
qed

subsection \<open>The claims\<close>

text \<open>
  C1. Category index consistency: after every handled event a record is listed under a
  tag exactly when it is in a sequence of the primary index, is an application and
  declares the tag. The code does not keep this at the input below. A launcher in the
  categories 7 and 8 is reported added under \<^verbatim>\<open>/d/applications\<close>: the record, at
  address 1, is listed under both tags. The same file is then reported removed: the
  handler takes the entry of the node it found for the record (line 177), and reads it
  as a record on line 183. The runs of the handler that return keep the two indexes in
  step (\<open>reachable_categories_consistent\<close>), but none of them takes a record out of
  either index.
\<close>

theorem removed_application_stays_in_categories:
  "(case obt_linkbase_new every_file_an_application fresh_memory [''/d''] ''fr'' 0 of
      Inl f \<Rightarrow> False
    | Inr (m, self) \<Rightarrow>
        (case update every_file_an_application m
                (notification ''/d/applications'' ''a.desktop'' OBT_WATCH_ADDED) self of
           Inl f \<Rightarrow> False
         | Inr m1 \<Rightarrow>
             obt_linkbase_category m1 self 7 = Inr [1] \<and>
             obt_linkbase_category m1 self 8 = Inr [1] \<and>
             update every_file_an_application m1
               (notification ''/d/applications'' ''a.desktop'' OBT_WATCH_REMOVED) self =
             Inl WrongType))"
  by (simp add: model_defs parse_locale_fr)

text \<open>
  C2. Sorted sequences: after every handled event each sequence of the primary index
  ascends strictly by priority. The runs of the handler that return keep it so
  (\<open>reachable_sequences_sorted\<close>): they are the additions. The code does not keep it
  at the input below, where an entry is to be replaced. The
  directories \<^verbatim>\<open>/d\<close> and \<^verbatim>\<open>/e\<close> have the priorities 0 and 1; \<^verbatim>\<open>a.desktop\<close> is
  reported added under the second and then under the first, which gives the sequence
  of the priorities 0 and 1 (nodes 6 and 3). The file of priority 0 is then reported
  modified: the handler faults on line 219 as it does for a removal; the lines after it
  would read \<^verbatim>\<open>*priority\<close>, which this case never assigns, and insert before the
  node freed on line 228.
\<close>

theorem modified_event_on_sorted_sequence:
  "(case obt_linkbase_new every_file_an_application fresh_memory [''/d'', ''/e''] ''fr'' 0 of
      Inl f \<Rightarrow> False
    | Inr (m, self) \<Rightarrow>
        (case update every_file_an_application m
                (notification ''/e/applications'' ''a.desktop'' OBT_WATCH_ADDED) self of
           Inl f \<Rightarrow> False
         | Inr m1 \<Rightarrow>
             (case update every_file_an_application m1
                     (notification ''/d/applications'' ''a.desktop'' OBT_WATCH_ADDED) self of
                Inl f \<Rightarrow> False
              | Inr m2 \<Rightarrow>
                  (case read_self (heap m2) self of
                     Inl f \<Rightarrow> False
                   | Inr lb \<Rightarrow>
                       base_list (heap m2) (g_hash_table_lookup (base lb) ''a.desktop'')
                         [(6, 0, 4), (3, 1, 1)]) \<and>
                  update every_file_an_application m2
                    (notification ''/d/applications'' ''a.desktop'' OBT_WATCH_MODIFIED) self =
                  Inl WrongType)))"
  by (simp add: model_defs parse_locale_fr)

text \<open>
  C3. No empty sequence is stored: an event that empties the sequence of an id removes
  the id from the primary index, also a modification whose file no longer parses. The
  code does not do this at the input below. \<^verbatim>\<open>a.desktop\<close> is the only entry of its
  id. Reported removed, or reported modified when it no longer parses, the handler
  faults on line 183 or 219 before it unlinks anything. Past that line the
  \<^verbatim>\<open>OBT_WATCH_MODIFIED\<close> case has no counterpart of lines 195-204: with a parse
  that fails nothing writes the table, which keeps the id with the head it had.
\<close>

theorem only_entry_removed_or_modified:
  "(case obt_linkbase_new every_file_an_application fresh_memory [''/d''] ''fr'' 0 of
      Inl f \<Rightarrow> False
    | Inr (m, self) \<Rightarrow>
        (case update every_file_an_application m
                (notification ''/d/applications'' ''a.desktop'' OBT_WATCH_ADDED) self of
           Inl f \<Rightarrow> False
         | Inr m1 \<Rightarrow>
             (case read_self (heap m1) self of
                Inl f \<Rightarrow> False
              | Inr lb \<Rightarrow> base lb = [(''a.desktop'', 3)]) \<and>
             base_list (heap m1) (Some 3) [(3, 0, 1)] \<and>
             update every_file_an_application m1
               (notification ''/d/applications'' ''a.desktop'' OBT_WATCH_REMOVED) self =
             Inl WrongType \<and>
             update no_file_parses m1
               (notification ''/d/applications'' ''a.desktop'' OBT_WATCH_MODIFIED) self =
             Inl WrongType))"
  by (simp add: model_defs parse_locale_fr)

text \<open>
  C4, as the claim states it: a \<^verbatim>\<open>OBT_WATCH_MODIFIED\<close> event for a launcher that has no
  entry still runs the add procedure. It does not. In \<open>watching_d\<close> nothing is indexed
  and a callback is registered; the parser accepts \<^verbatim>\<open>/d/applications/a.desktop\<close> and
  the record is to be displayed. The handler returns the memory as it was: no call
  recorded, nothing listed under the record's tag.
\<close>

theorem modified_unindexed_file_not_added:
  "obt_link_from_ddfile every_file_an_application ''/d/applications/a.desktop'' [''/d'']
     (Some ''fr'') None None =
     Some \<lparr>source_file = ''/d/applications/a.desktop'',
           link_type = OBT_LINK_TYPE_APPLICATION, app_categories = [7, 8]\<rparr> \<and>
   obt_link_display every_file_an_application
     \<lparr>source_file = ''/d/applications/a.desktop'',
      link_type = OBT_LINK_TYPE_APPLICATION, app_categories = [7, 8]\<rparr> 0 \<and>
   update every_file_an_application watching_d
     (notification ''/d/applications'' ''a.desktop'' OBT_WATCH_MODIFIED) 0 = Inr watching_d \<and>
   calls watching_d = [] \<and>
   obt_linkbase_category watching_d 0 7 = Inr [] \<and>
   map_sum id update_func (read_self (heap watching_d) 0) = Inr (Some 1)"
proof -
  define lb where "lb = projr (read_self (heap watching_d) 0)"
  define ev where "ev = notification ''/d/applications'' ''a.desktop'' OBT_WATCH_MODIFIED"
  have h1: "read_self (heap watching_d) 0 = Inr lb"
    unfolding lb_def by (simp add: watching_d_def read_self_def)
  have h2: "notify_type ev = OBT_WATCH_MODIFIED"
    unfolding ev_def by (simp add: notification_def)
  have h3: "find_base_entry_path (brk watching_d) (heap watching_d)
              (g_hash_table_lookup (base lb)
                 (obt_link_id_from_ddfile every_file_an_application (sub_path ev)))
              (full_path ev) = Inr None"
    unfolding lb_def ev_def by (simp add: watching_d_def model_defs)
  have "update every_file_an_application watching_d ev 0 = Inr watching_d"
    using h1 h2 h3 by (rule modified_not_found_unchanged)
  then show ?thesis
    unfolding ev_def
    by (simp add: watching_d_def every_file_an_application_def obt_linkbase_category_def
                  read_self_def g_hash_table_lookup_def)
qed

text \<open>
  C4, amended: in every memory the database can reach, a \<^verbatim>\<open>OBT_WATCH_MODIFIED\<close>
  event for which no entry of the sequence \<open>es\<close> of its id was read from the event's
  full path is a no-op: no removal step, no parse, no insertion and no callback. The
  handler returns the memory as it was.
\<close>

theorem modified_unindexed_file_ignored:
  assumes "reachable m self"
    and "read_self (heap m) self = Inr lb"
    and "notify_type ev = OBT_WATCH_MODIFIED"
    and "base_list (heap m)
           (g_hash_table_lookup (base lb) (obt_link_id_from_ddfile c (sub_path ev))) es"
    and "Some (full_path ev) \<notin> set (map (entry_path (heap m)) es)"
  shows "update c m ev self = Inr m"
proof -
  from reachable_index_ok [OF assms(1)] assms(2) obtain A where
    ok: "sequences_ok m lb A" and rok: "records_ok m A"
    by (auto simp: index_ok_def)
  let ?i = "obt_link_id_from_ddfile c (sub_path ev)"
  from ok have al: "allocated m"
    and bl: "base_list (heap m) (g_hash_table_lookup (base lb) ?i) (A ?i)"
    and dist: "distinct (map fst (A ?i))"
    by (simp_all add: sequences_ok_def)
  from base_list_unique [OF assms(4) bl] have es: "es = A ?i" .
  from base_list_length [OF bl dist al] have len: "length es \<le> brk m" by (simp add: es)
  from rok have live: "\<forall>e \<in> set es. \<exists>r k. heap m (snd (snd e)) = Some (ObtLinkObj r k)"
    unfolding records_ok_def es by blast
  from find_base_entry_path_absent [OF assms(4) live assms(5) len]
  have "find_base_entry_path (brk m) (heap m) (g_hash_table_lookup (base lb) ?i)
          (full_path ev) = Inr None" .
  with assms(2,3) show ?thesis
    by (simp add: update_unfold Let_def)
qed

text \<open>
  The amended C4 at a database over \<^verbatim>\<open>/d\<close> and \<^verbatim>\<open>/e\<close> that has \<^verbatim>\<open>a.desktop\<close> of
  \<^verbatim>\<open>/d\<close> indexed: the sequence of the id has the one entry read from
  \<^verbatim>\<open>/d/applications/a.desktop\<close>, and a modification reported for the file of the
  same id under \<^verbatim>\<open>/e\<close> changes nothing.
\<close>

theorem modified_unindexed_file_ignored_witness:
  "(case obt_linkbase_new every_file_an_application fresh_memory [''/d'', ''/e''] ''fr'' 0 of
      Inl f \<Rightarrow> False
    | Inr (m, self) \<Rightarrow>
        (case update every_file_an_application m
                (notification ''/d/applications'' ''a.desktop'' OBT_WATCH_ADDED) self of
           Inl f \<Rightarrow> False
         | Inr m1 \<Rightarrow>
             base_list (heap m1) (Some 3) [(3, 0, 1)] \<and>
             map (entry_path (heap m1)) [(3, 0, 1)] = [Some ''/d/applications/a.desktop''] \<and>
             full_path (notification ''/e/applications'' ''a.desktop'' OBT_WATCH_MODIFIED) =
               ''/e/applications/a.desktop'' \<and>
             update every_file_an_application m1
               (notification ''/e/applications'' ''a.desktop'' OBT_WATCH_MODIFIED) self =
             Inr m1))"
proof -
  define c where "c = every_file_an_application"
  define m where "m = fst (projr (obt_linkbase_new c fresh_memory [''/d'', ''/e''] ''fr'' 0))"
  define m1 where
    "m1 = projr (update c m (notification ''/d/applications'' ''a.desktop'' OBT_WATCH_ADDED) 0)"
  define lb where "lb = projr (read_self (heap m1) 0)"
  define ev where "ev = notification ''/e/applications'' ''a.desktop'' OBT_WATCH_MODIFIED"
  have new: "obt_linkbase_new c fresh_memory [''/d'', ''/e''] ''fr'' 0 = Inr (m, 0)"
    unfolding m_def c_def by (simp add: model_defs parse_locale_fr)
  have added:
    "update c m (notification ''/d/applications'' ''a.desktop'' OBT_WATCH_ADDED) 0 = Inr m1"
    unfolding m1_def m_def c_def by (simp add: model_defs parse_locale_fr)
  have "allocated fresh_memory"
    by (simp add: allocated_def fresh_memory_def)
  from reachable.constructed [OF this new] have "reachable m 0" .
  from reachable.handled [OF this added] have h0: "reachable m1 0" .
  have h1: "read_self (heap m1) 0 = Inr lb"
    unfolding lb_def m1_def m_def c_def by (simp add: model_defs parse_locale_fr)
  have h2: "notify_type ev = OBT_WATCH_MODIFIED"
    unfolding ev_def by (simp add: model_defs)
  have h3: "base_list (heap m1)
              (g_hash_table_lookup (base lb) (obt_link_id_from_ddfile c (sub_path ev)))
              [(3, 0, 1)]"
    unfolding ev_def lb_def m1_def m_def c_def by (simp add: model_defs parse_locale_fr)
  have head: "g_hash_table_lookup (base lb) (obt_link_id_from_ddfile c (sub_path ev)) = Some 3"
    unfolding ev_def lb_def m1_def m_def c_def by (simp add: model_defs parse_locale_fr)
  have paths: "map (entry_path (heap m1)) [(3, 0, 1)] = [Some ''/d/applications/a.desktop'']"
    unfolding m1_def m_def c_def by (simp add: model_defs entry_path_def parse_locale_fr)
  have path: "full_path ev = ''/e/applications/a.desktop''"
    unfolding ev_def by (simp add: model_defs)
  have h4: "Some (full_path ev) \<notin> set (map (entry_path (heap m1)) [(3, 0, 1)])"
    unfolding paths path by simp
  have "update c m1 ev 0 = Inr m1"
    by (rule modified_unindexed_file_ignored [OF h0 h1 h2 h3 h4])
  with new added h3 [unfolded head] paths path show ?thesis
    unfolding ev_def c_def by simp
qed

text \<open>
  C5. A \<^verbatim>\<open>OBT_WATCH_MODIFIED\<close> event whose entry is found, with a file that parses and
  is to be displayed, should put a new entry with the registered priority of the
  event's base path into the shortened sequence, at its place in the order. The code
  does not: for every such event the handler faults when it reads the entry as a
  record, and the add procedure, entered as this case enters it, with the priority
  pointer never assigned, faults when it reads \<^verbatim>\<open>*priority\<close> on line 261.
\<close>

theorem modified_indexed_file_faults:
  assumes "g_str_has_suffix (sub_path ev) ''.desktop''"
    and "read_self (heap m) data = Inr lb"
    and "notify_type ev = OBT_WATCH_MODIFIED"
    and "find_base_entry_path (brk m) (heap m)
           (g_hash_table_lookup (base lb) (obt_link_id_from_ddfile c (sub_path ev)))
           (full_path ev) = Inr (Some it)"
    and "obt_link_from_ddfile c (full_path ev) (paths lb) (language lb) (country lb)
           (modifier lb) = Some k"
    and "obt_link_display c k (environments lb)"
  shows "update c m ev data = Inl WrongType \<and>
         add_link c m lb (obt_link_id_from_ddfile c (sub_path ev)) list (Some it) None
           (full_path ev) = Inl Unassigned"
  using update_found_faults [OF assms(1) assms(2) _ assms(4)] assms(3)
    add_link_unassigned [OF assms(5) assms(6)]
  by simp

text \<open>C5 at a database with \<^verbatim>\<open>a.desktop\<close> indexed (its node is at address 3).\<close>

theorem modified_indexed_file_faults_witness:
  "(case obt_linkbase_new every_file_an_application fresh_memory [''/d''] ''fr'' 0 of
      Inl f \<Rightarrow> False
    | Inr (m, self) \<Rightarrow>
        (case update every_file_an_application m
                (notification ''/d/applications'' ''a.desktop'' OBT_WATCH_ADDED) self of
           Inl f \<Rightarrow> False
         | Inr m1 \<Rightarrow>
             (case read_self (heap m1) self of
                Inl f \<Rightarrow> False
              | Inr lb \<Rightarrow>
                  update every_file_an_application m1
                    (notification ''/d/applications'' ''a.desktop'' OBT_WATCH_MODIFIED) self =
                  Inl WrongType \<and>
                  add_link every_file_an_application m1 lb ''a.desktop''
                    (g_hash_table_lookup (base lb) ''a.desktop'') (Some 3) None
                    ''/d/applications/a.desktop'' = Inl Unassigned)))"
proof -
  define c where "c = every_file_an_application"
  define m where "m = fst (projr (obt_linkbase_new c fresh_memory [''/d''] ''fr'' 0))"
  define m1 where
    "m1 = projr (update c m (notification ''/d/applications'' ''a.desktop'' OBT_WATCH_ADDED) 0)"
  define lb where "lb = projr (read_self (heap m1) 0)"
  define ev where "ev = notification ''/d/applications'' ''a.desktop'' OBT_WATCH_MODIFIED"
  define k where "k = \<lparr>source_file = full_path ev, link_type = OBT_LINK_TYPE_APPLICATION,
                        app_categories = [7, 8]\<rparr>"
  have new: "obt_linkbase_new c fresh_memory [''/d''] ''fr'' 0 = Inr (m, 0)"
    unfolding m_def c_def by (simp add: model_defs parse_locale_fr)
  have added:
    "update c m (notification ''/d/applications'' ''a.desktop'' OBT_WATCH_ADDED) 0 = Inr m1"
    unfolding m1_def m_def c_def by (simp add: model_defs parse_locale_fr)
  have self: "read_self (heap m1) 0 = Inr lb"
    unfolding lb_def m1_def m_def c_def by (simp add: model_defs parse_locale_fr)
  have h1: "g_str_has_suffix (sub_path ev) ''.desktop''"
    unfolding ev_def by (simp add: model_defs)
  have h3: "notify_type ev = OBT_WATCH_MODIFIED"
    unfolding ev_def by (simp add: model_defs)
  have h4: "find_base_entry_path (brk m1) (heap m1)
              (g_hash_table_lookup (base lb) (obt_link_id_from_ddfile c (sub_path ev)))
              (full_path ev) = Inr (Some 3)"
    unfolding ev_def lb_def m1_def m_def c_def by (simp add: model_defs parse_locale_fr)
  have h5: "obt_link_from_ddfile c (full_path ev) (paths lb) (language lb) (country lb)
              (modifier lb) = Some k"
    unfolding c_def k_def by (simp add: model_defs)
  have h6: "obt_link_display c k (environments lb)"
    unfolding c_def by (simp add: model_defs)
  have "update c m1 ev 0 = Inl WrongType \<and>
        add_link c m1 lb (obt_link_id_from_ddfile c (sub_path ev))
          (g_hash_table_lookup (base lb) ''a.desktop'') (Some 3) None (full_path ev) =
        Inl Unassigned"
    by (rule modified_indexed_file_faults [OF h1 self h3 h4 h5 h6])
  moreover have "obt_link_id_from_ddfile c (sub_path ev) = ''a.desktop''"
    and "full_path ev = ''/d/applications/a.desktop''"
    unfolding ev_def c_def by (simp_all add: model_defs)
  ultimately show ?thesis
    using new added self unfolding ev_def c_def by simp
qed

text \<open>
  C6. Duplicate add rejection: in every memory the database can reach, an
  \<^verbatim>\<open>OBT_WATCH_ADDED\<close> event for an id whose sequence \<open>es\<close> already has an entry
  with exactly the registered priority of the event's base path is a no-op. The
  handler returns the memory as it was: the store, with the sequence, the database and
  its tables in it, and the recorded calls.
\<close>

theorem duplicate_add_rejected:
  assumes "reachable m self"
    and "read_self (heap m) self = Inr lb"
    and "notify_type ev = OBT_WATCH_ADDED"
    and "g_hash_table_lookup (path_to_priority lb) (base_path ev) = Some p"
    and "base_list (heap m)
           (g_hash_table_lookup (base lb) (obt_link_id_from_ddfile c (sub_path ev))) es"
    and "p \<in> set (map (\<lambda>e. fst (snd e)) es)"
  shows "update c m ev self = Inr m"
proof -
  from reachable_index_ok [OF assms(1)] assms(2) obtain A where ok: "sequences_ok m lb A"
    by (auto simp: index_ok_def)
  let ?i = "obt_link_id_from_ddfile c (sub_path ev)"
  from ok have al: "allocated m"
    and bl: "base_list (heap m) (g_hash_table_lookup (base lb) ?i) (A ?i)"
    and srt: "sorted_wrt (<) (map (\<lambda>e. fst (snd e)) (A ?i))"
    and dist: "distinct (map fst (A ?i))"
    by (simp_all add: sequences_ok_def)
  from base_list_unique [OF assms(5) bl] have es: "es = A ?i" .
  from base_list_length [OF bl dist al] have len: "length es \<le> brk m" by (simp add: es)
  from assms(2,3,4,5) srt [folded es] assms(6) len show ?thesis
    by (rule duplicate_add_helper)
qed

text \<open>
  C6 at a database that has \<^verbatim>\<open>a.desktop\<close> of both \<^verbatim>\<open>/d\<close> and \<^verbatim>\<open>/e\<close>: a second report
  of the file of \<^verbatim>\<open>/e\<close>, of priority 1, changes nothing.
\<close>

theorem duplicate_add_rejected_witness:
  "(case obt_linkbase_new every_file_an_application fresh_memory [''/d'', ''/e''] ''fr'' 0 of
      Inl f \<Rightarrow> False
    | Inr (m, self) \<Rightarrow>
        (case update every_file_an_application m
                (notification ''/d/applications'' ''a.desktop'' OBT_WATCH_ADDED) self of
           Inl f \<Rightarrow> False
         | Inr m1 \<Rightarrow>
             (case update every_file_an_application m1
                     (notification ''/e/applications'' ''a.desktop'' OBT_WATCH_ADDED) self of
                Inl f \<Rightarrow> False
              | Inr m2 \<Rightarrow>
                  base_list (heap m2) (Some 3) [(3, 0, 1), (6, 1, 4)] \<and>
                  update every_file_an_application m2
                    (notification ''/e/applications'' ''a.desktop'' OBT_WATCH_ADDED) self =
                  Inr m2)))"
proof -
  define c where "c = every_file_an_application"
  define m where "m = fst (projr (obt_linkbase_new c fresh_memory [''/d'', ''/e''] ''fr'' 0))"
  define m1 where
    "m1 = projr (update c m (notification ''/d/applications'' ''a.desktop'' OBT_WATCH_ADDED) 0)"
  define m2 where
    "m2 = projr (update c m1 (notification ''/e/applications'' ''a.desktop'' OBT_WATCH_ADDED) 0)"
  define lb where "lb = projr (read_self (heap m2) 0)"
  define ev where "ev = notification ''/e/applications'' ''a.desktop'' OBT_WATCH_ADDED"
  have new: "obt_linkbase_new c fresh_memory [''/d'', ''/e''] ''fr'' 0 = Inr (m, 0)"
    unfolding m_def c_def by (simp add: model_defs parse_locale_fr)
  have added1:
    "update c m (notification ''/d/applications'' ''a.desktop'' OBT_WATCH_ADDED) 0 = Inr m1"
    unfolding m1_def m_def c_def by (simp add: model_defs parse_locale_fr)
  have added2: "update c m1 ev 0 = Inr m2"
    unfolding m2_def m1_def m_def c_def ev_def by (simp add: model_defs parse_locale_fr)
  have "allocated fresh_memory"
    by (simp add: allocated_def fresh_memory_def)
  from reachable.constructed [OF this new] have "reachable m 0" .
  from reachable.handled [OF this added1] have "reachable m1 0" .
  from reachable.handled [OF this added2] have h0: "reachable m2 0" .
  have h1: "read_self (heap m2) 0 = Inr lb"
    unfolding lb_def m2_def m1_def m_def c_def by (simp add: model_defs parse_locale_fr)
  have h2: "notify_type ev = OBT_WATCH_ADDED"
    unfolding ev_def by (simp add: model_defs)
  have h3: "g_hash_table_lookup (path_to_priority lb) (base_path ev) = Some 1"
    unfolding ev_def lb_def m2_def m1_def m_def c_def by (simp add: model_defs parse_locale_fr)
  have h4: "base_list (heap m2)
              (g_hash_table_lookup (base lb) (obt_link_id_from_ddfile c (sub_path ev)))
              [(3, 0, 1), (6, 1, 4)]"
    unfolding ev_def lb_def m2_def m1_def m_def c_def by (simp add: model_defs parse_locale_fr)
  have head: "g_hash_table_lookup (base lb) (obt_link_id_from_ddfile c (sub_path ev)) = Some 3"
    unfolding ev_def lb_def m2_def m1_def m_def c_def by (simp add: model_defs parse_locale_fr)
  have "update c m2 ev 0 = Inr m2"
    by (rule duplicate_add_rejected [OF h0 h1 h2 h3 h4]) simp
  with new added1 added2 h4 [unfolded head] show ?thesis
    unfolding ev_def c_def by simp
qed

text \<open>
  C7. Reference counting: with the creation counted as the first retain, after \<open>N\<close>
  retains and \<open>N - 1\<close> releases the handle is valid, and the \<open>N\<close>th release frees
  it. The code does not do this for \<open>N = 2\<close>: \<^verbatim>\<open>obt_linkbase_new\<close> leaves the count
  at the 0 of \<^verbatim>\<open>g_slice_new0\<close>, so it is 1 after the one retain, and the first
  release, which tests \<^verbatim>\<open>--self->ref < 1\<close>, already frees the handle. For every
  database fresh from its construction: the retain returns, and no release that
  returns leaves the handle in the store.
\<close>

theorem retain_then_release_frees:
  assumes "obt_linkbase_new c m dirs locale env = Inr (m1, self)"
  shows "\<exists>m2. obt_linkbase_ref m1 self = Inr m2 \<and>
           (\<forall>m3. obt_linkbase_unref m2 self = Inr m3 \<longrightarrow> heap m3 self = None)"
proof -
  from obt_linkbase_new_frame [OF assms] obtain lb where
    lb: "read_self (heap m1) self = Inr lb" "ref lb = 0" by auto
  let ?m2 = "store_self m1 self (lb\<lparr>ref := gint (ref lb + 1)\<rparr>)"
  have "obt_linkbase_ref m1 self = Inr ?m2"
    using lb by (simp add: obt_linkbase_ref_def)
  moreover have "\<forall>m3. obt_linkbase_unref ?m2 self = Inr m3 \<longrightarrow> heap m3 self = None"
    using lb by (auto simp: obt_linkbase_unref_def gint_def split: sum.splits)
  ultimately show ?thesis by blast
qed

text \<open>
  C7 at a database over \<^verbatim>\<open>/d\<close> with two launchers indexed: created, retained once
  and released once, the handle at address 0 is gone, with the records at the
  addresses 1 and 4, and a query of the handle reads freed memory.
\<close>

theorem retain_then_release_frees_witness:
  "(case obt_linkbase_new two_launchers_each fresh_memory [''/d''] ''fr'' 0 of
      Inl f \<Rightarrow> False
    | Inr (m1, self) \<Rightarrow>
        (case obt_linkbase_ref m1 self of
           Inl f \<Rightarrow> False
         | Inr m2 \<Rightarrow>
             (case obt_linkbase_unref m2 self of
                Inl f \<Rightarrow> False
              | Inr m3 \<Rightarrow>
                  heap m3 self = None \<and> heap m3 1 = None \<and> heap m3 4 = None \<and>
                  obt_linkbase_category m3 self 7 = Inl Dangling)))"
proof -
  define m1 where
    "m1 = fst (projr (obt_linkbase_new two_launchers_each fresh_memory [''/d''] ''fr'' 0))"
  define m2 where "m2 = projr (obt_linkbase_ref m1 0)"
  define m3 where "m3 = projr (obt_linkbase_unref m2 0)"
  have new: "obt_linkbase_new two_launchers_each fresh_memory [''/d''] ''fr'' 0 = Inr (m1, 0)"
    unfolding m1_def by (simp add: model_defs parse_locale_fr)
  have retained: "obt_linkbase_ref m1 0 = Inr m2"
    unfolding m2_def m1_def by (simp add: model_defs parse_locale_fr)
  have released: "obt_linkbase_unref m2 0 = Inr m3"
    unfolding m3_def m2_def m1_def by (simp add: model_defs parse_locale_fr)
  have records: "heap m3 1 = None \<and> heap m3 4 = None"
    unfolding m3_def m2_def m1_def by (simp add: model_defs parse_locale_fr)
  from retain_then_release_frees [OF new] retained released
  have freed: "heap m3 0 = None" by auto
  then have "obt_linkbase_category m3 0 7 = Inl Dangling"
    by (simp add: obt_linkbase_category_def read_self_def)
  with new retained released records freed show ?thesis by simp
qed

text \<open>
  C8. The locale examples: \<^verbatim>\<open>fr\<close> gives the language \<^verbatim>\<open>fr\<close> and neither country
  nor modifier, as claimed. \<^verbatim>\<open>en_US.UTF-8@euro\<close> gives the language \<^verbatim>\<open>en\<close> and the
  country \<^verbatim>\<open>US\<close>, but no modifier where the claim has \<^verbatim>\<open>euro\<close>: the loop of lines
  332-337, meant to pass over the character set, starts on the \<^verbatim>\<open>'.'\<close> itself,
  which is not a letter, so it stops at once and the test for \<^verbatim>\<open>'@'\<close> on line 338
  still sees the \<^verbatim>\<open>'.'\<close>.
\<close>

theorem parse_locale_examples:
  "parse_locale ''fr'' = (Some ''fr'', None, None) \<and>
   parse_locale ''en_US.UTF-8@euro'' = (Some ''en'', Some ''US'', None)"
  by code_simp

text \<open>
  C9. The path priority registry: each directory not yet registered is registered once,
  under the path with \<^verbatim>\<open>applications\<close> appended, with the next priority from 0, before
  its watch is installed. The code does not register a directory that is listed twice
  only once: the test of line 355 looks up the directory, not the path built from it,
  so it never finds it. For the list \<^verbatim>\<open>/d\<close>, \<^verbatim>\<open>/d\<close> the path \<^verbatim>\<open>/d/applications\<close>
  ends with the priority 1, it is watched twice, and each launcher in it is indexed
  twice, with the priorities 0 and 1.
\<close>

theorem directory_listed_twice:
  "(case obt_linkbase_new two_launchers_each fresh_memory [''/d'', ''/d''] ''fr'' 0 of
      Inl f \<Rightarrow> False
    | Inr (m, self) \<Rightarrow>
        (case read_self (heap m) self of
           Inl f \<Rightarrow> False
         | Inr lb \<Rightarrow>
             path_to_priority lb = [(''/d/applications'', 1)] \<and>
             watch lb = [''/d/applications'', ''/d/applications''] \<and>
             base_list (heap m) (g_hash_table_lookup (base lb) ''a.desktop'')
               [(3, 0, 1), (9, 1, 7)]))"
  by (simp add: model_defs parse_locale_fr)

text \<open>
  C10. The change callback is not invoked while none is registered. A run of the
  handler on a database whose callback is NULL records no call, whatever the event
  and however the run ends: by a return, or by a fault, as every run does that comes
  to the call of lines 179-181 or 215-217. And construction, which leaves the
  callback NULL and hands the files already present to the same handler, returns
  with no call recorded and the callback still NULL.
\<close>

theorem no_callback_while_unregistered:
  "(read_self (heap m) data = Inr lb \<and> update_func lb = None \<longrightarrow>
    calls_made (update_traced c m ev data) = calls m \<and>
    (\<forall>m'. update c m ev data = Inr m' \<longrightarrow> calls m' = calls m)) \<and>
   (obt_linkbase_new c' before dirs loc env = Inr (after, self) \<longrightarrow>
    calls after = calls before \<and>
    (\<exists>lb'. read_self (heap after) self = Inr lb' \<and> update_func lb' = None))"
proof (intro conjI impI allI)
  assume "read_self (heap m) data = Inr lb \<and> update_func lb = None"
  then show "calls_made (update_traced c m ev data) = calls m"
    using update_traced_quiet [of m data lb c ev] by simp
next
  fix m'
  assume "read_self (heap m) data = Inr lb \<and> update_func lb = None"
    and "update c m ev data = Inr m'"
  then show "calls m' = calls m"
    using update_frame [of m data lb c ev m'] by auto
next
  assume "obt_linkbase_new c' before dirs loc env = Inr (after, self)"
  from obt_linkbase_new_frame [OF this] show "calls after = calls before" by auto
next
  assume "obt_linkbase_new c' before dirs loc env = Inr (after, self)"
  from obt_linkbase_new_frame [OF this]
  show "\<exists>lb'. read_self (heap after) self = Inr lb' \<and> update_func lb' = None" by auto
qed

text \<open>
  C10 at a database over \<^verbatim>\<open>/d\<close>, which holds two launchers when it is first watched:
  both are indexed during construction and no call is recorded. With the callback
  still NULL, a third launcher reported afterwards is indexed with no call either, and
  the removal of the first, which faults on line 183, has recorded no call when it
  does.
\<close>

theorem no_callback_while_unregistered_witness:
  "(case obt_linkbase_new two_launchers_each fresh_memory [''/d''] ''fr'' 0 of
      Inl f \<Rightarrow> False
    | Inr (m1, self) \<Rightarrow>
        calls m1 = [] \<and>
        (case read_self (heap m1) self of
           Inl f \<Rightarrow> False
         | Inr lb \<Rightarrow> map fst (base lb) = [''a.desktop'', ''b.desktop''] \<and> update_func lb = None) \<and>
        update_traced two_launchers_each m1
          (notification ''/d/applications'' ''a.desktop'' OBT_WATCH_REMOVED) self =
        Inl (WrongType, []) \<and>
        (case update two_launchers_each m1
                (notification ''/d/applications'' ''c.desktop'' OBT_WATCH_ADDED) self of
           Inl f \<Rightarrow> False
         | Inr m2 \<Rightarrow>
             calls m2 = [] \<and>
             (case read_self (heap m2) self of
                Inl f \<Rightarrow> False
              | Inr lb \<Rightarrow> map fst (base lb) = [''a.desktop'', ''b.desktop'', ''c.desktop''])))"
proof -
  define c where "c = two_launchers_each"
  define m1 where "m1 = fst (projr (obt_linkbase_new c fresh_memory [''/d''] ''fr'' 0))"
  define lb where "lb = projr (read_self (heap m1) 0)"
  define ev where "ev = notification ''/d/applications'' ''c.desktop'' OBT_WATCH_ADDED"
  define gone where "gone = notification ''/d/applications'' ''a.desktop'' OBT_WATCH_REMOVED"
  define m2 where "m2 = projr (update c m1 ev 0)"
  have new: "obt_linkbase_new c fresh_memory [''/d''] ''fr'' 0 = Inr (m1, 0)"
    unfolding m1_def c_def by (simp add: model_defs parse_locale_fr)
  have self: "read_self (heap m1) 0 = Inr lb"
    unfolding lb_def m1_def c_def by (simp add: model_defs parse_locale_fr)
  have indexed: "map fst (base lb) = [''a.desktop'', ''b.desktop'']"
    unfolding lb_def m1_def c_def by (simp add: model_defs parse_locale_fr)
  have unregistered: "update_func lb = None"
    unfolding lb_def m1_def c_def by (simp add: model_defs parse_locale_fr)
  have added: "update c m1 ev 0 = Inr m2"
    unfolding m2_def ev_def m1_def c_def by (simp add: model_defs parse_locale_fr)
  have indexed2:
    "(case read_self (heap m2) 0 of
        Inl f \<Rightarrow> False
      | Inr lb \<Rightarrow> map fst (base lb) = [''a.desktop'', ''b.desktop'', ''c.desktop''])"
    unfolding m2_def ev_def m1_def c_def by (simp add: model_defs parse_locale_fr)
  have "map_sum fst id (update_traced c m1 gone 0) = Inl WrongType"
    unfolding gone_def m1_def c_def update_def [symmetric]
    by (simp add: model_defs parse_locale_fr)
  then obtain log where faulted: "update_traced c m1 gone 0 = Inl (WrongType, log)"
    by (cases "update_traced c m1 gone 0") auto
  note claim = no_callback_while_unregistered
    [where m = m1 and data = 0 and lb = lb and c = c and ev = ev and c' = c
       and before = fresh_memory and dirs = "[''/d'']" and loc = "''fr''" and env = 0
       and after = m1 and self = 0]
  note claim_gone = no_callback_while_unregistered
    [where m = m1 and data = 0 and lb = lb and c = c and ev = gone and c' = c
       and before = fresh_memory and dirs = "[''/d'']" and loc = "''fr''" and env = 0
       and after = m1 and self = 0]
  from claim new have "calls m1 = calls fresh_memory" by blast
  then have quiet1: "calls m1 = []" by (simp add: fresh_memory_def)
  from claim self unregistered added have "calls m2 = calls m1" by blast
  with quiet1 have quiet2: "calls m2 = []" by simp
  from claim_gone self unregistered have "calls_made (update_traced c m1 gone 0) = calls m1"
    by blast
  with faulted quiet1 have "log = []" by (simp add: calls_made_def)
  with faulted have quiet3: "update_traced c m1 gone 0 = Inl (WrongType, [])" by simp
  from new self indexed unregistered added indexed2 quiet1 quiet2 quiet3 show ?thesis
    unfolding ev_def gone_def c_def by simp
qed

end
